theory Spec2Isabelle
  imports Main "HOL-Library.Word"
begin

section \<open>The coroutine message bus of corobus.cpp\<close>

text \<open>
  The model follows the complete variant of corobus.cpp, the one that implements broadcast
  and the vectorised operations. The non-blocking operations are modelled in full; the
  blocking ones are loops around them that suspend the calling coroutine.
\<close>

subsection \<open>Data model\<close>

text \<open>
  A \<open>struct coro *\<close> is an opaque handle that the bus only stores and hands back to
  the coroutine runtime; a message is a C \<open>unsigned\<close>; a \<open>size_t\<close> that is only
  compared (queue lengths, \<open>size_limit\<close>) is a natural number.
\<close>

type_synonym coro = nat
type_synonym u32 = "32 word"

text \<open>
  Modelled from the spec: the enumeration \<open>coro_bus_error_code\<close> is declared in
  corobus.h, which is not among the sources; its four codes are the ones the error
  taxonomy of the specification lists and corobus.cpp uses.
\<close>

datatype coro_bus_error_code =
    CORO_BUS_ERR_NONE
  | CORO_BUS_ERR_NO_CHANNEL
  | CORO_BUS_ERR_WOULD_BLOCK
  | CORO_BUS_ERR_NOT_IMPLEMENTED

text \<open>
  The bus talks to the coroutine runtime (libcoro) only through \<open>coro_wakeup\<close>,
  \<open>coro_suspend\<close> and \<open>coro_yield\<close>. The model records these calls, in order, in a log.
\<close>

datatype rt_call = Coro_wakeup coro | Coro_suspend coro | Coro_yield

record coro_bus_channel =
  size_limit :: nat
  send_queue :: "coro list"
  recv_queue :: "coro list"
  messages :: "u32 list"

text \<open>
  \<open>struct coro_bus\<close> (the channel table, a vector of channel pointers with \<open>NULL\<close> as
  \<open>None\<close>, and the broadcast queue) together with the static \<open>global_error\<close> and the
  log of runtime calls. Every channel object is owned by exactly one slot, so a channel
  pointer is the content of its slot; a function that mutates \<open>*chan\<close> returns the
  updated channel and its caller stores it back in the slot the pointer was read from.
\<close>

record machine =
  channels :: "coro_bus_channel option list"
  broadcast_queue :: "coro list"
  global_error :: coro_bus_error_code
  rt_calls :: "rt_call list"

subsection \<open>Integer conversions\<close>

text \<open>
  \<open>int chan_desc = i\<close> and \<open>return i\<close> narrow a \<open>size_t\<close> to a 32-bit \<open>int\<close>:
  the value is reduced modulo \<open>2 ^ 32\<close> and read as two's complement.
\<close>

definition size_to_int :: "nat \<Rightarrow> int" where
  "size_to_int n = sint (word_of_nat n :: 32 word)"

subsection \<open>Static helpers\<close>

definition coro_bus_errno :: "machine \<Rightarrow> coro_bus_error_code" where
  "coro_bus_errno s = global_error s"

definition coro_bus_errno_set :: "coro_bus_error_code \<Rightarrow> machine \<Rightarrow> machine" where
  "coro_bus_errno_set err s = s\<lparr>global_error := err\<rparr>"

text \<open>\<open>wakeup_coro_queue\<close>: wake the front and pop it, until the queue is empty.\<close>

fun wakeup_coro_queue :: "coro list \<Rightarrow> rt_call list \<Rightarrow> coro list \<times> rt_call list" where
  "wakeup_coro_queue [] rt = ([], rt)"
| "wakeup_coro_queue (c # q) rt = wakeup_coro_queue q (rt @ [Coro_wakeup c])"

definition suspend_this_and_save_to ::
  "coro \<Rightarrow> coro list \<Rightarrow> rt_call list \<Rightarrow> coro list \<times> rt_call list" where
  "suspend_this_and_save_to this_coro q rt = (q @ [this_coro], rt @ [Coro_suspend this_coro])"

text \<open>Returns 0 if some coroutine was woken up, else 1.\<close>

definition wakeup_first_and_remove_from ::
  "coro list \<Rightarrow> rt_call list \<Rightarrow> int \<times> coro list \<times> rt_call list" where
  "wakeup_first_and_remove_from q rt =
     (case q of
        [] \<Rightarrow> (1, [], rt)
      | waiting_coro # q' \<Rightarrow> (0, q', rt @ [Coro_wakeup waiting_coro]))"

definition have_free_space :: "coro_bus_channel \<Rightarrow> bool" where
  "have_free_space chan \<longleftrightarrow> length (messages chan) < size_limit chan"

definition get_chanel_from :: "machine \<Rightarrow> int \<Rightarrow> coro_bus_channel option" where
  "get_chanel_from bus channel =
     (if channel < 0 then None
      else if length (channels bus) \<le> nat channel then None
      else channels bus ! nat channel)"

definition send_and_wakeup_to ::
  "coro_bus_channel \<Rightarrow> u32 \<Rightarrow> rt_call list \<Rightarrow> coro_bus_channel \<times> rt_call list" where
  "send_and_wakeup_to chan data rt =
     (let chan1 = chan\<lparr>messages := messages chan @ [data]\<rparr>;
          (r, q, rt') = wakeup_first_and_remove_from (recv_queue chan1) rt
      in (chan1\<lparr>recv_queue := q\<rparr>, rt'))"

text \<open>
  \<open>read_and_wakeup_from\<close> takes the bus's broadcast queue, the channel and the log, and
  returns the value stored through \<open>data\<close> with the three updated. \<open>front()\<close> and
  \<open>pop()\<close> of an empty \<open>std::queue\<close> are undefined: \<open>None\<close>.
\<close>

definition read_and_wakeup_from ::
  "coro list \<Rightarrow> coro_bus_channel \<Rightarrow> rt_call list \<Rightarrow>
     (u32 \<times> coro_bus_channel \<times> coro list \<times> rt_call list) option" where
  "read_and_wakeup_from bq chan rt =
     (case messages chan of
        [] \<Rightarrow> None
      | m # ms \<Rightarrow>
          (let (r, sq, rt1) = wakeup_first_and_remove_from (send_queue chan) rt;
               chan' = chan\<lparr>messages := ms, send_queue := sq\<rparr>
           in if r \<noteq> 0
              then (let (r', bq', rt2) = wakeup_first_and_remove_from bq rt1
                    in Some (m, chan', bq', rt2))
              else Some (m, chan', bq, rt1)))"

subsection \<open>Lifecycle\<close>

text \<open>The state at program start after \<open>coro_bus_new\<close>: an empty table and queue.\<close>

definition coro_bus_new :: machine where
  "coro_bus_new =
     \<lparr>channels = [], broadcast_queue = [], global_error = CORO_BUS_ERR_NONE, rt_calls = []\<rparr>"

text \<open>\<open>new struct coro_bus_channel\<close> with its \<open>size_limit\<close> set: all three queues empty.\<close>

definition new_chan :: "nat \<Rightarrow> coro_bus_channel" where
  "new_chan lim = \<lparr>size_limit = lim, send_queue = [], recv_queue = [], messages = []\<rparr>"

text \<open>
  The scan of \<open>coro_bus_channel_open\<close>: \<open>i\<close> is the loop index of the first slot of the
  remaining table, \<open>chan_desc\<close> the descriptor found so far. The loop has no \<open>break\<close>.
  Both variants of corobus.cpp have the same \<open>coro_bus_channel_open\<close>, line for line.
\<close>

fun open_scan :: "coro_bus_channel option list \<Rightarrow> nat \<Rightarrow> int \<Rightarrow> int" where
  "open_scan [] i chan_desc = chan_desc"
| "open_scan (c # cs) i chan_desc =
     open_scan cs (Suc i) (if c = None then size_to_int i else chan_desc)"

text \<open>
  \<open>bus->channels[chan_desc]\<close> converts the descriptor to \<open>size_t\<close>; a negative descriptor
  becomes an index beyond any table, and writing there is undefined: \<open>None\<close>.
\<close>

definition coro_bus_channel_open :: "machine \<Rightarrow> nat \<Rightarrow> (int \<times> machine) option" where
  "coro_bus_channel_open bus lim =
     (let d0 = open_scan (channels bus) 0 (- 1);
          (chs, chan_desc) =
             (if d0 = - 1
              then (channels bus @ [None], size_to_int (length (channels bus @ [None]) - 1))
              else (channels bus, d0))
      in if 0 \<le> chan_desc \<and> nat chan_desc < length chs
         then Some (chan_desc, bus\<lparr>channels := chs[nat chan_desc := Some (new_chan lim)]\<rparr>)
         else None)"

text \<open>
  The two \<open>wakeup_coro_queue\<close> calls of \<open>coro_bus_channel_close\<close>: the channel as it is
  just before it is deleted, and the log.
\<close>

definition close_wakeup :: "coro_bus_channel \<Rightarrow> rt_call list \<Rightarrow> coro_bus_channel \<times> rt_call list" where
  "close_wakeup chan rt =
     (let (sq, rt1) = wakeup_coro_queue (send_queue chan) rt;
          (rq, rt2) = wakeup_coro_queue (recv_queue chan) rt1
      in (chan\<lparr>send_queue := sq, recv_queue := rq\<rparr>, rt2))"

definition coro_bus_channel_close :: "machine \<Rightarrow> int \<Rightarrow> machine" where
  "coro_bus_channel_close bus channel =
     (case get_chanel_from bus channel of
        None \<Rightarrow> bus
      | Some chan \<Rightarrow>
          (let (chan', rt) = close_wakeup chan (rt_calls bus)
           in bus\<lparr>channels := (channels bus)[nat channel := None],
                  rt_calls := rt @ [Coro_yield]\<rparr>))"

subsection \<open>Non-blocking send and receive\<close>

definition coro_bus_try_send :: "machine \<Rightarrow> int \<Rightarrow> u32 \<Rightarrow> int \<times> machine" where
  "coro_bus_try_send bus channel data =
     (case get_chanel_from bus channel of
        None \<Rightarrow> (- 1, coro_bus_errno_set CORO_BUS_ERR_NO_CHANNEL bus)
      | Some chan \<Rightarrow>
          if \<not> have_free_space chan
          then (- 1, coro_bus_errno_set CORO_BUS_ERR_WOULD_BLOCK bus)
          else (let (chan', rt) = send_and_wakeup_to chan data (rt_calls bus)
                in (0, bus\<lparr>channels := (channels bus)[nat channel := Some chan'],
                           rt_calls := rt\<rparr>)))"

text \<open>
  \<open>coro_bus_try_recv\<close> returns its return value, the value written through \<open>data\<close> (if
  any) and the new state.
\<close>

definition coro_bus_try_recv :: "machine \<Rightarrow> int \<Rightarrow> (int \<times> u32 option \<times> machine) option" where
  "coro_bus_try_recv bus channel =
     (case get_chanel_from bus channel of
        None \<Rightarrow> Some (- 1, None, coro_bus_errno_set CORO_BUS_ERR_NO_CHANNEL bus)
      | Some chan \<Rightarrow>
          if messages chan = []
          then Some (- 1, None, coro_bus_errno_set CORO_BUS_ERR_WOULD_BLOCK bus)
          else (case read_and_wakeup_from (broadcast_queue bus) chan (rt_calls bus) of
                  None \<Rightarrow> None
                | Some (m, chan', bq, rt) \<Rightarrow>
                    Some (0, Some m,
                      bus\<lparr>channels := (channels bus)[nat channel := Some chan'],
                          broadcast_queue := bq, rt_calls := rt\<rparr>)))"

subsection \<open>Broadcast\<close>

text \<open>
  The first loop of \<open>coro_bus_try_broadcast\<close>: \<open>None\<close> when an occupied slot has no free
  space (the early return), otherwise \<open>alive_chans\<close>.
\<close>

fun broadcast_scan ::
  "coro_bus_channel option list \<Rightarrow> coro_bus_channel list \<Rightarrow> coro_bus_channel list option" where
  "broadcast_scan [] alive_chans = Some alive_chans"
| "broadcast_scan (None # cs) alive_chans = broadcast_scan cs alive_chans"
| "broadcast_scan (Some chan # cs) alive_chans =
     (if \<not> have_free_space chan then None
      else broadcast_scan cs (alive_chans @ [chan]))"

text \<open>
  The second loop: \<open>alive_chans\<close> holds the pointers of the occupied slots in table
  order, so the loop is a pass over the table that sends to every occupied slot.
\<close>

fun broadcast_push ::
  "coro_bus_channel option list \<Rightarrow> u32 \<Rightarrow> rt_call list \<Rightarrow>
     coro_bus_channel option list \<times> rt_call list" where
  "broadcast_push [] data rt = ([], rt)"
| "broadcast_push (None # cs) data rt =
     (let (cs', rt') = broadcast_push cs data rt in (None # cs', rt'))"
| "broadcast_push (Some chan # cs) data rt =
     (let (chan', rt1) = send_and_wakeup_to chan data rt;
          (cs', rt2) = broadcast_push cs data rt1
      in (Some chan' # cs', rt2))"

definition coro_bus_try_broadcast :: "machine \<Rightarrow> u32 \<Rightarrow> int \<times> machine" where
  "coro_bus_try_broadcast bus data =
     (case broadcast_scan (channels bus) [] of
        None \<Rightarrow> (- 1, coro_bus_errno_set CORO_BUS_ERR_WOULD_BLOCK bus)
      | Some alive_chans \<Rightarrow>
          if alive_chans = []
          then (- 1, coro_bus_errno_set CORO_BUS_ERR_NO_CHANNEL bus)
          else (let (chs, rt) = broadcast_push (channels bus) data (rt_calls bus)
                in (0, bus\<lparr>channels := chs, rt_calls := rt\<rparr>)))"

subsection \<open>Vectorised send and receive\<close>

text \<open>
  The loop of \<open>coro_bus_try_send_v\<close>. The array behind \<open>data\<close> is a list; reading
  \<open>data[i]\<close> beyond it is undefined: \<open>None\<close>.
\<close>

function send_v_loop ::
  "coro_bus_channel \<Rightarrow> rt_call list \<Rightarrow> u32 list \<Rightarrow> nat \<Rightarrow> nat \<Rightarrow>
     (nat \<times> coro_bus_channel \<times> rt_call list) option" where
  "send_v_loop chan rt data count i =
     (if have_free_space chan \<and> i < count
      then (if i < length data
            then (let (chan', rt') = send_and_wakeup_to chan (data ! i) rt
                  in send_v_loop chan' rt' data count (Suc i))
            else None)
      else Some (i, chan, rt))"
  by pat_completeness auto
termination
  by (relation "measure (\<lambda>(chan, rt, data, count, i). count - i)") auto

definition coro_bus_try_send_v ::
  "machine \<Rightarrow> int \<Rightarrow> u32 list \<Rightarrow> 32 word \<Rightarrow> (int \<times> machine) option" where
  "coro_bus_try_send_v bus channel data count =
     (case get_chanel_from bus channel of
        None \<Rightarrow> Some (- 1, coro_bus_errno_set CORO_BUS_ERR_NO_CHANNEL bus)
      | Some chan \<Rightarrow>
          (case send_v_loop chan (rt_calls bus) data (unat count) 0 of
             None \<Rightarrow> None
           | Some (i, chan', rt) \<Rightarrow>
               (let bus' = bus\<lparr>channels := (channels bus)[nat channel := Some chan'],
                               rt_calls := rt\<rparr>
                in if i = 0
                   then Some (- 1, coro_bus_errno_set CORO_BUS_ERR_WOULD_BLOCK bus')
                   else Some (size_to_int i, bus'))))"

text \<open>
  The loop of \<open>coro_bus_try_recv_v\<close>; \<open>out\<close> is what has been written to
  \<open>data[0]\<close>, ..., \<open>data[i - 1]\<close> so far.
\<close>

function recv_v_loop ::
  "coro list \<Rightarrow> coro_bus_channel \<Rightarrow> rt_call list \<Rightarrow> nat \<Rightarrow> nat \<Rightarrow> u32 list \<Rightarrow>
     (nat \<times> u32 list \<times> coro_bus_channel \<times> coro list \<times> rt_call list) option" where
  "recv_v_loop bq chan rt capacity i out =
     (if messages chan \<noteq> [] \<and> i < capacity
      then (case read_and_wakeup_from bq chan rt of
              None \<Rightarrow> None
            | Some (m, chan', bq', rt') \<Rightarrow>
                recv_v_loop bq' chan' rt' capacity (Suc i) (out @ [m]))
      else Some (i, out, chan, bq, rt))"
  by pat_completeness auto
termination
  by (relation "measure (\<lambda>(bq, chan, rt, capacity, i, out). capacity - i)") auto

definition coro_bus_try_recv_v ::
  "machine \<Rightarrow> int \<Rightarrow> 32 word \<Rightarrow> (int \<times> u32 list \<times> machine) option" where
  "coro_bus_try_recv_v bus channel capacity =
     (case get_chanel_from bus channel of
        None \<Rightarrow> Some (- 1, [], coro_bus_errno_set CORO_BUS_ERR_NO_CHANNEL bus)
      | Some chan \<Rightarrow>
          (case recv_v_loop (broadcast_queue bus) chan (rt_calls bus) (unat capacity) 0 [] of
             None \<Rightarrow> None
           | Some (i, out, chan', bq, rt) \<Rightarrow>
               (let bus' = bus\<lparr>channels := (channels bus)[nat channel := Some chan'],
                               broadcast_queue := bq, rt_calls := rt\<rparr>
                in if i = 0
                   then Some (- 1, out, coro_bus_errno_set CORO_BUS_ERR_WOULD_BLOCK bus')
                   else Some (size_to_int i, out, bus'))))"

subsection \<open>Sequences of public operations\<close>

text \<open>The capacity bound of one channel, and of every channel of the table.\<close>

definition chan_ok :: "coro_bus_channel \<Rightarrow> bool" where
  "chan_ok chan \<longleftrightarrow> length (messages chan) \<le> size_limit chan"

definition bus_inv :: "machine \<Rightarrow> bool" where
  "bus_inv bus \<longleftrightarrow> list_all (\<lambda>slot. case slot of None \<Rightarrow> True | Some chan \<Rightarrow> chan_ok chan) (channels bus)"

text \<open>
  A call of one of the public non-blocking operations with its arguments, and the state
  after it (\<open>None\<close> when the call has undefined behaviour).
\<close>

datatype bus_op =
    Channel_open nat
  | Channel_close int
  | Try_send int u32
  | Try_recv int
  | Try_broadcast u32
  | Try_send_v int "u32 list" "32 word"
  | Try_recv_v int "32 word"

fun exec :: "bus_op \<Rightarrow> machine \<Rightarrow> machine option" where
  "exec (Channel_open lim) bus = map_option snd (coro_bus_channel_open bus lim)"
| "exec (Channel_close channel) bus = Some (coro_bus_channel_close bus channel)"
| "exec (Try_send channel data) bus = Some (snd (coro_bus_try_send bus channel data))"
| "exec (Try_recv channel) bus = map_option (\<lambda>(r, out, bus'). bus') (coro_bus_try_recv bus channel)"
| "exec (Try_broadcast data) bus = Some (snd (coro_bus_try_broadcast bus data))"
| "exec (Try_send_v channel data count) bus =
     map_option snd (coro_bus_try_send_v bus channel data count)"
| "exec (Try_recv_v channel capacity) bus =
     map_option (\<lambda>(r, out, bus'). bus') (coro_bus_try_recv_v bus channel capacity)"

fun run :: "bus_op list \<Rightarrow> machine \<Rightarrow> machine option" where
  "run [] bus = Some bus"
| "run (op # ops) bus = (case exec op bus of None \<Rightarrow> None | Some bus' \<Rightarrow> run ops bus')"

text \<open>
  A call that stays within its arguments: the array handed to \<open>coro_bus_try_send_v\<close>
  holds at least \<open>count\<close> elements.
\<close>

fun op_ok :: "bus_op \<Rightarrow> bool" where
  "op_ok (Try_send_v channel data count) \<longleftrightarrow> unat count \<le> length data"
| "op_ok _ \<longleftrightarrow> True"

text \<open>Successive \<open>coro_bus_try_send\<close> calls on one channel: the return values and the state.\<close>

fun send_each :: "machine \<Rightarrow> int \<Rightarrow> u32 list \<Rightarrow> int list \<times> machine" where
  "send_each bus channel [] = ([], bus)"
| "send_each bus channel (d # ds) =
     (let (r, bus1) = coro_bus_try_send bus channel d;
          (rs, bus2) = send_each bus1 channel ds
      in (r # rs, bus2))"

text \<open>
  One sender and one receiver on one channel, each send followed by its receive: for every
  value the return value of the send, the return value of the receive and what the receive
  stored through \<open>data\<close>.
\<close>

fun ping_pong ::
  "machine \<Rightarrow> int \<Rightarrow> u32 list \<Rightarrow> ((int \<times> int \<times> u32 option) list \<times> machine) option" where
  "ping_pong bus channel [] = Some ([], bus)"
| "ping_pong bus channel (v # vs) =
     (let (rs, bus1) = coro_bus_try_send bus channel v
      in case coro_bus_try_recv bus1 channel of
           None \<Rightarrow> None
         | Some (rr, out, bus2) \<Rightarrow>
             (case ping_pong bus2 channel vs of
                None \<Rightarrow> None
              | Some (log, bus3) \<Rightarrow> Some ((rs, rr, out) # log, bus3)))"

subsection \<open>Example states\<close>

text \<open>One channel of capacity 1, empty and full.\<close>

definition bus_cap1_empty :: machine where
  "bus_cap1_empty =
     \<lparr>channels = [Some (new_chan 1)], broadcast_queue = [],
      global_error = CORO_BUS_ERR_NONE, rt_calls = []\<rparr>"

definition bus_cap1_full :: machine where
  "bus_cap1_full =
     \<lparr>channels = [Some ((new_chan 1)\<lparr>messages := [7]\<rparr>)], broadcast_queue = [],
      global_error = CORO_BUS_ERR_NONE, rt_calls = []\<rparr>"

text \<open>A full channel with two suspended receivers, and a suspended broadcaster.\<close>

definition chan_waiters :: coro_bus_channel where
  "chan_waiters = \<lparr>size_limit = 1, send_queue = [], recv_queue = [4, 5], messages = [7]\<rparr>"

definition bus_waiters :: machine where
  "bus_waiters =
     \<lparr>channels = [Some chan_waiters], broadcast_queue = [3],
      global_error = CORO_BUS_ERR_NONE, rt_calls = []\<rparr>"

text \<open>Three slots, the last one empty: three channels were opened and the third closed.\<close>

definition bus_holes :: machine where
  "bus_holes =
     \<lparr>channels = [Some (new_chan 1), Some (new_chan 1), None], broadcast_queue = [],
      global_error = CORO_BUS_ERR_NONE, rt_calls = [Coro_yield]\<rparr>"

text \<open>Two open channels around an empty slot; the second holds one message of two.\<close>

definition bus_two :: machine where
  "bus_two =
     \<lparr>channels = [Some (new_chan 1), None, Some ((new_chan 2)\<lparr>messages := [7]\<rparr>)],
      broadcast_queue = [], global_error = CORO_BUS_ERR_NONE, rt_calls = [Coro_yield]\<rparr>"

text \<open>A run that fills a channel, is refused, drains it and broadcasts; and its final state.\<close>

definition demo_ops :: "bus_op list" where
  "demo_ops =
     [Channel_open 2, Try_send 0 5, Try_send 0 6, Try_send 0 7, Try_send_v 0 [1, 2, 3] 3,
      Try_recv 0, Try_send_v 0 [1, 2, 3] 3, Try_broadcast 9, Try_recv_v 0 1,
      Channel_open 1, Try_broadcast 9, Channel_close 1, Channel_close 1]"

definition demo_final :: machine where
  "demo_final =
     \<lparr>channels = [Some ((new_chan 2)\<lparr>messages := [1, 9]\<rparr>), None], broadcast_queue = [],
      global_error = CORO_BUS_ERR_WOULD_BLOCK, rt_calls = [Coro_yield]\<rparr>"

text \<open>
  A channel of capacity 3 holding one message, with a suspended receiver; and the state
  after two more messages have been sent to it.
\<close>

definition bus_cap3 :: machine where
  "bus_cap3 =
     \<lparr>channels = [Some ((new_chan 3)\<lparr>recv_queue := [4], messages := [7]\<rparr>)],
      broadcast_queue = [], global_error = CORO_BUS_ERR_NONE, rt_calls = []\<rparr>"

definition bus_cap3_sent :: machine where
  "bus_cap3_sent =
     \<lparr>channels = [Some ((new_chan 3)\<lparr>messages := [7, 1, 2]\<rparr>)],
      broadcast_queue = [], global_error = CORO_BUS_ERR_NONE, rt_calls = [Coro_wakeup 4]\<rparr>"

section \<open>Properties\<close>

subsection \<open>Auxiliary facts\<close>

lemma get_chanel_from_Some_iff:
  "get_chanel_from bus channel = Some chan \<longleftrightarrow>
     0 \<le> channel \<and> nat channel < length (channels bus) \<and> channels bus ! nat channel = Some chan"
  by (auto simp: get_chanel_from_def)

lemma get_chanel_from_None_iff:
  "get_chanel_from bus channel = None \<longleftrightarrow>
     channel < 0 \<or> length (channels bus) \<le> nat channel \<or> channels bus ! nat channel = None"
  by (auto simp: get_chanel_from_def)

lemma wakeup_coro_queue_eq: "wakeup_coro_queue q rt = ([], rt @ map Coro_wakeup q)"
  by (induction q arbitrary: rt) simp_all

lemma close_wakeup_eq:
  "close_wakeup chan rt =
     (chan\<lparr>send_queue := [], recv_queue := []\<rparr>,
      rt @ map Coro_wakeup (send_queue chan) @ map Coro_wakeup (recv_queue chan))"
  by (simp add: close_wakeup_def wakeup_coro_queue_eq)

lemma size_to_int_small: "n < 2 ^ 31 \<Longrightarrow> size_to_int n = int n"
  unfolding size_to_int_def
  by (simp add: signed_of_nat signed_take_bit_int_eq_self take_bit_nat_eq_self)

lemma open_scan_no_empty: "None \<notin> set cs \<Longrightarrow> open_scan cs i d = d"
  by (induction cs arbitrary: i d) auto

lemma open_scan_last_empty:
  "j < length cs \<Longrightarrow> cs ! j = None \<Longrightarrow> \<forall>k. j < k \<and> k < length cs \<longrightarrow> cs ! k \<noteq> None \<Longrightarrow>
   open_scan cs i d = size_to_int (i + j)"
proof (induction cs arbitrary: i d j)
  case Nil
  then show ?case by simp
next
  case (Cons c cs)
  show ?case
  proof (cases j)
    case 0
    have "None \<notin> set cs"
    proof
      assume "None \<in> set cs"
      then obtain k where "k < length cs" "cs ! k = None"
        by (auto simp: in_set_conv_nth)
      with Cons.prems(3) [rule_format, of "Suc k"] 0 show False by simp
    qed
    with Cons.prems 0 show ?thesis by (simp add: open_scan_no_empty)
  next
    case (Suc j')
    have "open_scan cs (Suc i) (if c = None then size_to_int i else d) = size_to_int (Suc i + j')"
    proof (rule Cons.IH)
      show "j' < length cs" using Cons.prems(1) Suc by simp
      show "cs ! j' = None" using Cons.prems(2) Suc by simp
      show "\<forall>k. j' < k \<and> k < length cs \<longrightarrow> cs ! k \<noteq> None"
      proof (intro allI impI)
        fix k assume "j' < k \<and> k < length cs"
        with Cons.prems(3) [rule_format, of "Suc k"] Suc show "cs ! k \<noteq> None" by simp
      qed
    qed
    with Suc show ?thesis by simp
  qed
qed

lemma last_empty_exists:
  "None \<in> set cs \<Longrightarrow>
   \<exists>j < length cs. cs ! j = None \<and> (\<forall>k. j < k \<and> k < length cs \<longrightarrow> cs ! k \<noteq> None)"
proof (induction cs)
  case Nil
  then show ?case by simp
next
  case (Cons c cs)
  show ?case
  proof (cases "None \<in> set cs")
    case True
    with Cons.IH obtain j where j: "j < length cs" "cs ! j = None"
      "\<forall>k. j < k \<and> k < length cs \<longrightarrow> cs ! k \<noteq> None" by blast
    have "\<forall>k. Suc j < k \<and> k < length (c # cs) \<longrightarrow> (c # cs) ! k \<noteq> None"
    proof (intro allI impI)
      fix k assume k: "Suc j < k \<and> k < length (c # cs)"
      then obtain k' where "k = Suc k'" by (cases k) auto
      with k j(3) show "(c # cs) ! k \<noteq> None" by simp
    qed
    with j(1,2) show ?thesis by (intro exI [of _ "Suc j"]) simp
  next
    case False
    with Cons.prems have c: "c = None" by simp
    have "\<forall>k. 0 < k \<and> k < length (c # cs) \<longrightarrow> (c # cs) ! k \<noteq> None"
    proof (intro allI impI)
      fix k assume k: "0 < k \<and> k < length (c # cs)"
      then obtain k' where "k = Suc k'" by (cases k) auto
      with k False show "(c # cs) ! k \<noteq> None" by (auto simp: in_set_conv_nth)
    qed
    with c show ?thesis by (intro exI [of _ 0]) simp
  qed
qed

lemma channel_open_reuse:
  assumes len: "length (channels bus) < 2 ^ 31"
    and j: "j < length (channels bus)" "channels bus ! j = None"
    and last: "\<forall>k. j < k \<and> k < length (channels bus) \<longrightarrow> channels bus ! k \<noteq> None"
  shows "coro_bus_channel_open bus lim =
           Some (int j, bus\<lparr>channels := (channels bus)[j := Some (new_chan lim)]\<rparr>)"
proof -
  have "j < 2 ^ 31" using len j(1) by simp
  then have "size_to_int j = int j" by (rule size_to_int_small)
  with open_scan_last_empty [OF j last, of 0 "- 1"]
  have "open_scan (channels bus) 0 (- 1) = int j" by simp
  with j(1) show ?thesis by (simp add: coro_bus_channel_open_def)
qed

lemma send_and_wakeup_to_fields [simp]:
  "messages (fst (send_and_wakeup_to chan data rt)) = messages chan @ [data]"
  "size_limit (fst (send_and_wakeup_to chan data rt)) = size_limit chan"
  "send_queue (fst (send_and_wakeup_to chan data rt)) = send_queue chan"
  by (simp_all add: send_and_wakeup_to_def wakeup_first_and_remove_from_def split: list.splits)

lemma broadcast_scan_None_iff:
  "broadcast_scan cs alive = None \<longleftrightarrow> (\<exists>chan. Some chan \<in> set cs \<and> \<not> have_free_space chan)"
  by (induction cs alive rule: broadcast_scan.induct) auto

lemma broadcast_scan_empty_iff:
  "broadcast_scan cs alive = Some al \<Longrightarrow> al = [] \<longleftrightarrow> alive = [] \<and> (\<forall>slot \<in> set cs. slot = None)"
  by (induction cs alive arbitrary: al rule: broadcast_scan.induct) (auto split: if_splits)

lemma broadcast_push_length: "length (fst (broadcast_push cs data rt)) = length cs"
proof (induction cs data rt rule: broadcast_push.induct)
  case (1 data rt)
  then show ?case by simp
next
  case (2 cs data rt)
  then show ?case by (simp add: split_beta)
next
  case (3 chan cs data rt)
  from "3.IH" [OF refl prod.collapse] show ?case
    by (simp add: split_beta Let_def)
qed

lemma broadcast_push_nth:
  "i < length cs \<Longrightarrow>
   (cs ! i = None \<longrightarrow> fst (broadcast_push cs data rt) ! i = None)
   \<and> (\<forall>c. cs ! i = Some c \<longrightarrow>
        (\<exists>c'. fst (broadcast_push cs data rt) ! i = Some c'
           \<and> messages c' = messages c @ [data] \<and> size_limit c' = size_limit c))"
proof (induction cs data rt arbitrary: i rule: broadcast_push.induct)
  case (1 data rt)
  then show ?case by simp
next
  case (2 cs data rt)
  then show ?case by (cases i) (simp_all add: split_beta)
next
  case (3 chan cs data rt)
  show ?case
  proof (cases i)
    case 0
    then show ?thesis by (simp add: split_beta Let_def)
  next
    case (Suc i')
    with "3.prems" have "i' < length cs" by simp
    from "3.IH" [OF refl prod.collapse this] Suc show ?thesis
      by (simp add: split_beta Let_def)
  qed
qed

lemma get_chanel_from_mem:
  "get_chanel_from bus channel = Some chan \<Longrightarrow> Some chan \<in> set (channels bus)"
  by (metis get_chanel_from_Some_iff nth_mem)

lemma bus_inv_iff: "bus_inv bus \<longleftrightarrow> (\<forall>c. Some c \<in> set (channels bus) \<longrightarrow> chan_ok c)"
  by (auto simp: bus_inv_def list_all_iff split: option.splits)

lemma slots_update_Some:
  assumes "\<forall>c. Some c \<in> set chs \<longrightarrow> chan_ok c" and "chan_ok c'"
  shows "\<forall>c. Some c \<in> set (chs[i := Some c']) \<longrightarrow> chan_ok c"
  using assms set_update_subset_insert [of chs i "Some c'"] by auto

lemma slots_update_None:
  assumes "\<forall>c. Some c \<in> set chs \<longrightarrow> chan_ok c"
  shows "\<forall>c. Some c \<in> set (chs[i := None]) \<longrightarrow> chan_ok c"
  using assms set_update_subset_insert [of chs i None] by auto

lemma chan_ok_send: "have_free_space chan \<Longrightarrow> chan_ok (fst (send_and_wakeup_to chan data rt))"
  by (simp add: chan_ok_def have_free_space_def)

lemma read_and_wakeup_from_fields:
  assumes "read_and_wakeup_from bq chan rt = Some (m, chan', bq', rt')"
  shows "messages chan = m # messages chan'" and "size_limit chan' = size_limit chan"
    and "recv_queue chan' = recv_queue chan"
  using assms
  by (auto simp: read_and_wakeup_from_def wakeup_first_and_remove_from_def
      split: list.splits if_splits)

lemma read_and_wakeup_from_total:
  "messages chan \<noteq> [] \<Longrightarrow> read_and_wakeup_from bq chan rt \<noteq> None"
  by (auto simp: read_and_wakeup_from_def wakeup_first_and_remove_from_def split: list.splits)

lemma chan_ok_read:
  assumes "read_and_wakeup_from bq chan rt = Some (m, chan', bq', rt')" and "chan_ok chan"
  shows "chan_ok chan'"
  using read_and_wakeup_from_fields(1,2) [OF assms(1)] assms(2)
  by (simp add: chan_ok_def)

declare send_v_loop.simps [simp del] recv_v_loop.simps [simp del]

lemma send_v_loop_ok:
  "send_v_loop chan rt data count i = Some (i', chan', rt') \<Longrightarrow> chan_ok chan \<Longrightarrow> chan_ok chan'"
proof (induction chan rt data count i rule: send_v_loop.induct)
  case (1 chan rt data count i)
  note unf = send_v_loop.simps [of chan rt data count i]
  show ?case
  proof (cases "have_free_space chan \<and> i < count")
    case True
    with "1.prems"(1) have len: "i < length data"
      by (simp add: unf split: if_splits)
    let ?p = "send_and_wakeup_to chan (data ! i) rt"
    from True len "1.prems"(1) have "send_v_loop (fst ?p) (snd ?p) data count (Suc i) = Some (i', chan', rt')"
      by (simp add: unf split_beta)
    moreover from True have "chan_ok (fst ?p)" by (simp add: chan_ok_send)
    ultimately show ?thesis
      using "1.IH" [OF True len refl prod.collapse] by simp
  next
    case False
    with "1.prems" show ?thesis by (simp add: unf)
  qed
qed

lemma recv_v_loop_ok:
  "recv_v_loop bq chan rt capacity i out = Some (i', out', chan', bq', rt') \<Longrightarrow>
   chan_ok chan \<Longrightarrow> chan_ok chan'"
proof (induction bq chan rt capacity i out rule: recv_v_loop.induct)
  case (1 bq chan rt capacity i out)
  note unf = recv_v_loop.simps [of bq chan rt capacity i out]
  show ?case
  proof (cases "messages chan \<noteq> [] \<and> i < capacity")
    case True
    with "1.prems"(1) obtain m chan1 bq1 rt1 where
      r: "read_and_wakeup_from bq chan rt = Some (m, chan1, bq1, rt1)"
      and l: "recv_v_loop bq1 chan1 rt1 capacity (Suc i) (out @ [m]) = Some (i', out', chan', bq', rt')"
      by (auto simp: unf split: option.splits)
    from chan_ok_read [OF r "1.prems"(2)] have "chan_ok chan1" .
    with "1.IH" [OF True r refl refl refl l] show ?thesis by simp
  next
    case False
    with "1.prems" show ?thesis by (simp add: unf)
  qed
qed

lemma recv_v_loop_total:
  "recv_v_loop bq chan rt capacity i out \<noteq> None"
proof (induction bq chan rt capacity i out rule: recv_v_loop.induct)
  case (1 bq chan rt capacity i out)
  note unf = recv_v_loop.simps [of bq chan rt capacity i out]
  show ?case
  proof (cases "messages chan \<noteq> [] \<and> i < capacity")
    case True
    then obtain m chan1 bq1 rt1 where
      r: "read_and_wakeup_from bq chan rt = Some (m, chan1, bq1, rt1)"
      using read_and_wakeup_from_total [of chan bq rt] by auto
    with "1.IH" [OF True r refl refl refl] True show ?thesis
      by (auto simp: unf)
  next
    case False
    then show ?thesis by (auto simp: unf)
  qed
qed

lemma broadcast_push_ok:
  assumes "\<forall>c. Some c \<in> set cs \<longrightarrow> have_free_space c"
  shows "\<forall>c. Some c \<in> set (fst (broadcast_push cs data rt)) \<longrightarrow> chan_ok c"
proof (intro allI impI)
  fix c' assume "Some c' \<in> set (fst (broadcast_push cs data rt))"
  then obtain i where i: "i < length cs" "fst (broadcast_push cs data rt) ! i = Some c'"
    by (auto simp: in_set_conv_nth broadcast_push_length)
  with broadcast_push_nth [OF i(1), of data rt] obtain c where
    c: "cs ! i = Some c" "messages c' = messages c @ [data]" "size_limit c' = size_limit c"
    by (cases "cs ! i") auto
  from c(1) i(1) have "Some c \<in> set cs" by (metis nth_mem)
  with assms have "have_free_space c" by simp
  with c show "chan_ok c'" by (simp add: chan_ok_def have_free_space_def)
qed

lemma try_send_inv: "bus_inv bus \<Longrightarrow> bus_inv (snd (coro_bus_try_send bus channel data))"
  by (auto simp: bus_inv_iff coro_bus_try_send_def coro_bus_errno_set_def split_beta
      split: option.splits dest: slots_update_Some [rule_format, rotated 2] intro: chan_ok_send)

lemma channel_close_inv: "bus_inv bus \<Longrightarrow> bus_inv (coro_bus_channel_close bus channel)"
  by (auto simp: bus_inv_iff coro_bus_channel_close_def close_wakeup_eq
      split: option.splits dest: slots_update_None [rule_format, rotated])

lemma channel_open_inv:
  assumes "bus_inv bus" and "coro_bus_channel_open bus lim = Some (d, bus')"
  shows "bus_inv bus'"
proof -
  have new: "chan_ok (new_chan lim)" by (simp add: chan_ok_def new_chan_def)
  from assms(1) have a: "\<forall>c. Some c \<in> set (channels bus) \<longrightarrow> chan_ok c"
    by (simp add: bus_inv_iff)
  then have b: "\<forall>c. Some c \<in> set (channels bus @ [None]) \<longrightarrow> chan_ok c" by simp
  from assms(2) have "channels bus' = (channels bus)[nat d := Some (new_chan lim)]
      \<or> channels bus' = (channels bus @ [None])[nat d := Some (new_chan lim)]"
    by (auto simp: coro_bus_channel_open_def Let_def split: if_splits)
  with slots_update_Some [OF a new] slots_update_Some [OF b new] show ?thesis
    by (auto simp: bus_inv_iff)
qed

lemma try_recv_inv:
  assumes "bus_inv bus" and "coro_bus_try_recv bus channel = Some (r, out, bus')"
  shows "bus_inv bus'"
proof (cases "get_chanel_from bus channel")
  case None
  with assms show ?thesis
    by (auto simp: coro_bus_try_recv_def coro_bus_errno_set_def bus_inv_iff)
next
  case (Some chan)
  then have mem: "Some chan \<in> set (channels bus)"
    by (rule get_chanel_from_mem)
  with assms(1) have ok: "chan_ok chan" by (simp add: bus_inv_iff)
  show ?thesis
  proof (cases "messages chan = []")
    case True
    with Some assms show ?thesis
      by (auto simp: coro_bus_try_recv_def coro_bus_errno_set_def bus_inv_iff)
  next
    case False
    with Some assms(2) obtain m chan' bq rt where
      r: "read_and_wakeup_from (broadcast_queue bus) chan (rt_calls bus) = Some (m, chan', bq, rt)"
      and b: "channels bus' = (channels bus)[nat channel := Some chan']"
      by (auto simp: coro_bus_try_recv_def split: option.splits)
    from chan_ok_read [OF r ok] have "chan_ok chan'" .
    with slots_update_Some [of "channels bus" chan' "nat channel"] assms(1) b show ?thesis
      by (simp add: bus_inv_iff)
  qed
qed

lemma try_broadcast_inv: "bus_inv bus \<Longrightarrow> bus_inv (snd (coro_bus_try_broadcast bus data))"
proof (cases "broadcast_scan (channels bus) []")
  case None
  assume "bus_inv bus"
  with None show ?thesis
    by (simp add: coro_bus_try_broadcast_def coro_bus_errno_set_def bus_inv_iff)
next
  case (Some alive)
  assume inv: "bus_inv bus"
  have "broadcast_scan (channels bus) [] \<noteq> None" using Some by simp
  then have "\<forall>c. Some c \<in> set (channels bus) \<longrightarrow> have_free_space c"
    by (auto simp: broadcast_scan_None_iff)
  from broadcast_push_ok [OF this, of data "rt_calls bus"] inv Some show ?thesis
    by (simp add: coro_bus_try_broadcast_def coro_bus_errno_set_def bus_inv_iff split_beta)
qed

lemma try_send_v_inv:
  assumes "bus_inv bus" and "coro_bus_try_send_v bus channel data count = Some (r, bus')"
  shows "bus_inv bus'"
proof (cases "get_chanel_from bus channel")
  case None
  with assms show ?thesis
    by (auto simp: coro_bus_try_send_v_def coro_bus_errno_set_def bus_inv_iff)
next
  case (Some chan)
  then have "Some chan \<in> set (channels bus)"
    by (rule get_chanel_from_mem)
  with assms(1) have ok: "chan_ok chan" by (simp add: bus_inv_iff)
  from Some assms(2) obtain i chan' rt where
    l: "send_v_loop chan (rt_calls bus) data (unat count) 0 = Some (i, chan', rt)"
    and b: "channels bus' = (channels bus)[nat channel := Some chan']"
    by (auto simp: coro_bus_try_send_v_def coro_bus_errno_set_def Let_def
        split: option.splits if_splits)
  from send_v_loop_ok [OF l ok] have "chan_ok chan'" .
  with slots_update_Some [of "channels bus" chan' "nat channel"] assms(1) b show ?thesis
    by (simp add: bus_inv_iff)
qed

lemma try_recv_v_inv:
  assumes "bus_inv bus" and "coro_bus_try_recv_v bus channel capacity = Some (r, out, bus')"
  shows "bus_inv bus'"
proof (cases "get_chanel_from bus channel")
  case None
  with assms show ?thesis
    by (auto simp: coro_bus_try_recv_v_def coro_bus_errno_set_def bus_inv_iff)
next
  case (Some chan)
  then have "Some chan \<in> set (channels bus)"
    by (rule get_chanel_from_mem)
  with assms(1) have ok: "chan_ok chan" by (simp add: bus_inv_iff)
  from Some assms(2) obtain i out' chan' bq rt where
    l: "recv_v_loop (broadcast_queue bus) chan (rt_calls bus) (unat capacity) 0 [] =
          Some (i, out', chan', bq, rt)"
    and b: "channels bus' = (channels bus)[nat channel := Some chan']"
    by (auto simp: coro_bus_try_recv_v_def coro_bus_errno_set_def Let_def
        split: option.splits if_splits)
  from recv_v_loop_ok [OF l ok] have "chan_ok chan'" .
  with slots_update_Some [of "channels bus" chan' "nat channel"] assms(1) b show ?thesis
    by (simp add: bus_inv_iff)
qed

lemma exec_inv: "bus_inv bus \<Longrightarrow> exec op bus = Some bus' \<Longrightarrow> bus_inv bus'"
proof (cases op)
  case (Channel_open lim)
  assume "bus_inv bus" "exec op bus = Some bus'"
  with Channel_open show ?thesis by (auto dest: channel_open_inv)
next
  case (Channel_close channel)
  assume "bus_inv bus" "exec op bus = Some bus'"
  with Channel_close show ?thesis by (auto intro: channel_close_inv)
next
  case (Try_send channel data)
  assume "bus_inv bus" "exec op bus = Some bus'"
  with Try_send show ?thesis by (auto intro: try_send_inv)
next
  case (Try_recv channel)
  assume "bus_inv bus" "exec op bus = Some bus'"
  with Try_recv show ?thesis by (auto dest: try_recv_inv)
next
  case (Try_broadcast data)
  assume "bus_inv bus" "exec op bus = Some bus'"
  with Try_broadcast show ?thesis by (auto intro: try_broadcast_inv)
next
  case (Try_send_v channel data count)
  assume "bus_inv bus" "exec op bus = Some bus'"
  with Try_send_v show ?thesis by (auto dest: try_send_v_inv)
next
  case (Try_recv_v channel capacity)
  assume "bus_inv bus" "exec op bus = Some bus'"
  with Try_recv_v show ?thesis by (auto dest: try_recv_v_inv)
qed

lemma run_inv: "bus_inv bus \<Longrightarrow> run ops bus = Some bus' \<Longrightarrow> bus_inv bus'"
proof (induction ops arbitrary: bus)
  case Nil
  then show ?case by simp
next
  case (Cons op ops)
  from Cons.prems(2) obtain bus1 where e: "exec op bus = Some bus1" and r: "run ops bus1 = Some bus'"
    by (auto split: option.splits)
  from exec_inv [OF Cons.prems(1) e] have "bus_inv bus1" .
  from Cons.IH [OF this r] show ?case .
qed

lemma size_to_int_pos:
  assumes "n < 2 ^ 32" and "0 < size_to_int n"
  shows "size_to_int n = int n"
proof (cases "n < 2 ^ 31")
  case True
  then show ?thesis by (rule size_to_int_small)
next
  case False
  then have "(2::int) ^ 31 \<le> int n"
    by (metis not_less of_nat_le_iff of_nat_numeral of_nat_power)
  from signed_take_bit_int_less_eq [OF this] have "signed_take_bit 31 (int n) \<le> int n - 2 ^ 32"
    by simp
  moreover from assms(1) have "int n < 2 ^ 32"
    by (metis of_nat_less_iff of_nat_numeral of_nat_power)
  moreover have "size_to_int n = signed_take_bit 31 (int n)"
    by (simp add: size_to_int_def signed_of_nat)
  ultimately have "size_to_int n < 0"
    by linarith
  with assms(2) show ?thesis by simp
qed

lemma try_send_ok:
  assumes "get_chanel_from bus channel = Some chan" and "have_free_space chan"
  shows "coro_bus_try_send bus channel data =
           (0, bus\<lparr>channels := (channels bus)[nat channel := Some (fst (send_and_wakeup_to chan data (rt_calls bus)))],
                    rt_calls := snd (send_and_wakeup_to chan data (rt_calls bus))\<rparr>)"
  using assms by (simp add: coro_bus_try_send_def split_beta)

lemma get_chanel_from_update:
  "get_chanel_from bus channel = Some chan \<Longrightarrow>
   get_chanel_from (bus\<lparr>channels := (channels bus)[nat channel := Some chan'], rt_calls := rt\<rparr>) channel
     = Some chan'"
  by (simp add: get_chanel_from_def split: if_splits)

lemma get_chanel_from_update_bq:
  "get_chanel_from bus channel = Some chan \<Longrightarrow>
   get_chanel_from (bus\<lparr>channels := (channels bus)[nat channel := Some chan'],
       broadcast_queue := bq, rt_calls := rt\<rparr>) channel = Some chan'"
  by (simp add: get_chanel_from_def split: if_splits)

lemma send_v_loop_total:
  "count \<le> length data \<Longrightarrow> send_v_loop chan rt data count i \<noteq> None"
proof (induction chan rt data count i rule: send_v_loop.induct)
  case (1 chan rt data count i)
  note unf = send_v_loop.simps [of chan rt data count i]
  show ?case
  proof (cases "have_free_space chan \<and> i < count")
    case True
    with "1.prems" have len: "i < length data" by simp
    from "1.IH" [OF True len refl prod.collapse "1.prems"] True len show ?thesis
      by (simp add: unf split_beta)
  next
    case False
    then show ?thesis by (auto simp: unf)
  qed
qed

lemma send_v_loop_send_each:
  assumes "send_v_loop chan rt data count i = Some (i', chan', rt')"
    and "get_chanel_from bus channel = Some chan" and "rt_calls bus = rt"
  shows "i' = i + min (count - i) (size_limit chan - length (messages chan))
    \<and> (i' = i \<or> i' \<le> length data)
    \<and> send_each bus channel (take (i' - i) (drop i data)) =
         (replicate (i' - i) 0,
          bus\<lparr>channels := (channels bus)[nat channel := Some chan'], rt_calls := rt'\<rparr>)"
  using assms
proof (induction chan rt data count i arbitrary: bus rule: send_v_loop.induct)
  case (1 chan rt data count i)
  note unf = send_v_loop.simps [of chan rt data count i]
  from "1.prems"(2) have slot: "(channels bus)[nat channel := Some chan] = channels bus"
    by (simp add: get_chanel_from_Some_iff list_update_same_conv [THEN iffD2])
  show ?case
  proof (cases "have_free_space chan \<and> i < count")
    case False
    with "1.prems"(1) have e: "i' = i" "chan' = chan" "rt' = rt"
      by (auto simp: unf)
    from False have "min (count - i) (size_limit chan - length (messages chan)) = 0"
      by (auto simp: have_free_space_def)
    with e slot "1.prems"(3) show ?thesis by simp
  next
    case True
    with "1.prems"(1) have len: "i < length data"
      by (simp add: unf split: if_splits)
    let ?p = "send_and_wakeup_to chan (data ! i) rt"
    let ?bus1 = "bus\<lparr>channels := (channels bus)[nat channel := Some (fst ?p)], rt_calls := snd ?p\<rparr>"
    from True len "1.prems"(1)
    have loop: "send_v_loop (fst ?p) (snd ?p) data count (Suc i) = Some (i', chan', rt')"
      by (simp add: unf split_beta)
    from True "1.prems"(2,3) have send: "coro_bus_try_send bus channel (data ! i) = (0, ?bus1)"
      by (simp add: try_send_ok)
    have g1: "get_chanel_from ?bus1 channel = Some (fst ?p)"
      using "1.prems"(2) by (rule get_chanel_from_update)
    have r1: "rt_calls ?bus1 = snd ?p" by simp
    note ih0 = "1.IH" [OF True len refl prod.collapse loop g1 r1]
    note ih = ih0 [THEN conjunct1] ih0 [THEN conjunct2, THEN conjunct1]
      ih0 [THEN conjunct2, THEN conjunct2]
    from ih(1) True have i': "i' = i + min (count - i) (size_limit chan - length (messages chan))"
      by (auto simp: have_free_space_def min_def)
    from ih(1) have gt: "i < i'" by simp
    then have diff: "i' - i = Suc (i' - Suc i)" by simp
    from len have "drop i data = data ! i # drop (Suc i) data"
      by (simp add: Cons_nth_drop_Suc)
    with diff have tk: "take (i' - i) (drop i data) = data ! i # take (i' - Suc i) (drop (Suc i) data)"
      by simp
    have "send_each bus channel (data ! i # take (i' - Suc i) (drop (Suc i) data)) =
         (0 # replicate (i' - Suc i) 0,
          bus\<lparr>channels := (channels bus)[nat channel := Some chan'], rt_calls := rt'\<rparr>)"
      by (simp add: send ih(3))
    moreover have "replicate (i' - i) (0::int) = 0 # replicate (i' - Suc i) 0"
      by (simp only: diff replicate_Suc)
    ultimately have "send_each bus channel (take (i' - i) (drop i data)) =
         (replicate (i' - i) 0,
          bus\<lparr>channels := (channels bus)[nat channel := Some chan'], rt_calls := rt'\<rparr>)"
      by (simp only: tk)
    moreover from ih(2) len have "i' \<le> length data" by auto
    ultimately show ?thesis using i' by simp
  qed
qed

lemma try_recv_ok:
  assumes "get_chanel_from bus channel = Some chan" and "messages chan = m # ms"
  shows "\<exists>chan' bq rt.
           coro_bus_try_recv bus channel =
             Some (0, Some m, bus\<lparr>channels := (channels bus)[nat channel := Some chan'],
                                   broadcast_queue := bq, rt_calls := rt\<rparr>)
           \<and> messages chan' = ms \<and> size_limit chan' = size_limit chan"
proof -
  from assms(2) have ne: "messages chan \<noteq> []" by simp
  from read_and_wakeup_from_total [OF ne, of "broadcast_queue bus" "rt_calls bus"]
  obtain m' chan' bq rt where
    r: "read_and_wakeup_from (broadcast_queue bus) chan (rt_calls bus) = Some (m', chan', bq, rt)"
    by auto
  from read_and_wakeup_from_fields(1,2) [OF r] assms(2)
  have f: "m' = m" "messages chan' = ms" "size_limit chan' = size_limit chan"
    by simp_all
  from assms(1) ne r f(1) have
    "coro_bus_try_recv bus channel =
       Some (0, Some m, bus\<lparr>channels := (channels bus)[nat channel := Some chan'],
                             broadcast_queue := bq, rt_calls := rt\<rparr>)"
    by (simp add: coro_bus_try_recv_def)
  with f(2,3) show ?thesis by blast
qed

lemma channel_open_total:
  assumes "length (channels bus) < 2 ^ 31"
  shows "\<exists>d bus'. coro_bus_channel_open bus lim = Some (d, bus')
           \<and> length (channels bus') \<le> Suc (length (channels bus))"
proof (cases "None \<in> set (channels bus)")
  case True
  from last_empty_exists [OF this] obtain j where j: "j < length (channels bus)"
    "channels bus ! j = None"
    "\<forall>k. j < k \<and> k < length (channels bus) \<longrightarrow> channels bus ! k \<noteq> None"
    by blast
  from channel_open_reuse [OF assms j] show ?thesis by simp
next
  case False
  then have "open_scan (channels bus) 0 (- 1) = - 1" by (rule open_scan_no_empty)
  moreover from assms have "size_to_int (length (channels bus)) = int (length (channels bus))"
    by (rule size_to_int_small)
  ultimately show ?thesis by (simp add: coro_bus_channel_open_def)
qed

lemma try_recv_total:
  "\<exists>r out bus'. coro_bus_try_recv bus channel = Some (r, out, bus')
     \<and> length (channels bus') = length (channels bus)"
proof (cases "get_chanel_from bus channel")
  case None
  then show ?thesis by (simp add: coro_bus_try_recv_def coro_bus_errno_set_def)
next
  case (Some chan)
  show ?thesis
  proof (cases "messages chan")
    case Nil
    with Some show ?thesis by (simp add: coro_bus_try_recv_def coro_bus_errno_set_def)
  next
    case (Cons m ms)
    from try_recv_ok [OF Some Cons] show ?thesis by auto
  qed
qed

lemma try_send_length:
  "length (channels (snd (coro_bus_try_send bus channel data))) = length (channels bus)"
  by (simp add: coro_bus_try_send_def coro_bus_errno_set_def split_beta split: option.splits)

lemma channel_close_length:
  "length (channels (coro_bus_channel_close bus channel)) = length (channels bus)"
  by (simp add: coro_bus_channel_close_def close_wakeup_eq split: option.splits)

lemma try_broadcast_length:
  "length (channels (snd (coro_bus_try_broadcast bus data))) = length (channels bus)"
  using broadcast_push_length [of "channels bus" data "rt_calls bus"]
  by (simp add: coro_bus_try_broadcast_def coro_bus_errno_set_def split_beta split: option.splits)

lemma try_send_v_total:
  assumes "unat count \<le> length data"
  shows "\<exists>r bus'. coro_bus_try_send_v bus channel data count = Some (r, bus')
     \<and> length (channels bus') = length (channels bus)"
proof (cases "get_chanel_from bus channel")
  case None
  then show ?thesis by (simp add: coro_bus_try_send_v_def coro_bus_errno_set_def)
next
  case (Some chan)
  from send_v_loop_total [OF assms, of chan "rt_calls bus" 0] obtain i chan' rt where
    "send_v_loop chan (rt_calls bus) data (unat count) 0 = Some (i, chan', rt)"
    by auto
  with Some show ?thesis
    by (simp add: coro_bus_try_send_v_def coro_bus_errno_set_def Let_def)
qed

lemma try_recv_v_total:
  "\<exists>r out bus'. coro_bus_try_recv_v bus channel capacity = Some (r, out, bus')
     \<and> length (channels bus') = length (channels bus)"
proof (cases "get_chanel_from bus channel")
  case None
  then show ?thesis by (simp add: coro_bus_try_recv_v_def coro_bus_errno_set_def)
next
  case (Some chan)
  from recv_v_loop_total [of "broadcast_queue bus" chan "rt_calls bus" "unat capacity" 0 "[]"]
  obtain i out chan' bq rt where
    "recv_v_loop (broadcast_queue bus) chan (rt_calls bus) (unat capacity) 0 [] =
       Some (i, out, chan', bq, rt)"
    by auto
  with Some show ?thesis
    by (simp add: coro_bus_try_recv_v_def coro_bus_errno_set_def Let_def)
qed

lemma exec_total:
  assumes "length (channels bus) < 2 ^ 31" and "op_ok op"
  shows "\<exists>bus'. exec op bus = Some bus' \<and> length (channels bus') \<le> Suc (length (channels bus))"
proof (cases op)
  case (Channel_open lim)
  with channel_open_total [OF assms(1), of lim] show ?thesis by auto
next
  case (Channel_close channel)
  then show ?thesis by (simp add: channel_close_length)
next
  case (Try_send channel data)
  then show ?thesis by (simp add: try_send_length)
next
  case (Try_recv channel)
  with try_recv_total [of bus channel] show ?thesis by auto
next
  case (Try_broadcast data)
  then show ?thesis by (simp add: try_broadcast_length)
next
  case (Try_send_v channel data count)
  with assms(2) try_send_v_total [of count data bus channel] show ?thesis by auto
next
  case (Try_recv_v channel capacity)
  with try_recv_v_total [of bus channel capacity] show ?thesis by auto
qed

lemma run_total:
  "length (channels bus) + length ops < 2 ^ 31 \<Longrightarrow> list_all op_ok ops \<Longrightarrow>
   \<exists>bus'. run ops bus = Some bus'"
proof (induction ops arbitrary: bus)
  case Nil
  then show ?case by simp
next
  case (Cons op ops)
  from Cons.prems have "length (channels bus) < 2 ^ 31" "op_ok op" by simp_all
  from exec_total [OF this] obtain bus1 where
    e: "exec op bus = Some bus1" and l: "length (channels bus1) \<le> Suc (length (channels bus))"
    by blast
  from l Cons.prems(1) have "length (channels bus1) + length ops < 2 ^ 31" by simp
  moreover from Cons.prems(2) have "list_all op_ok ops" by simp
  ultimately obtain bus' where "run ops bus1 = Some bus'"
    using Cons.IH by blast
  with e show ?case by simp
qed

lemma send_v_loop_messages:
  "send_v_loop chan rt data count i = Some (i', chan', rt') \<Longrightarrow>
   i \<le> i' \<and> messages chan' = messages chan @ take (i' - i) (drop i data)"
proof (induction chan rt data count i rule: send_v_loop.induct)
  case (1 chan rt data count i)
  note unf = send_v_loop.simps [of chan rt data count i]
  show ?case
  proof (cases "have_free_space chan \<and> i < count")
    case False
    with "1.prems" show ?thesis by (auto simp: unf)
  next
    case True
    with "1.prems" have len: "i < length data"
      by (simp add: unf split: if_splits)
    let ?p = "send_and_wakeup_to chan (data ! i) rt"
    from True len "1.prems"
    have loop: "send_v_loop (fst ?p) (snd ?p) data count (Suc i) = Some (i', chan', rt')"
      by (simp add: unf split_beta)
    note ih = "1.IH" [OF True len refl prod.collapse loop]
    from ih have le: "Suc i \<le> i'" by (rule conjunct1)
    from ih have m: "messages chan' = (messages chan @ [data ! i]) @ take (i' - Suc i) (drop (Suc i) data)"
      by simp
    from le have diff: "i' - i = Suc (i' - Suc i)" by simp
    from len have "drop i data = data ! i # drop (Suc i) data"
      by (simp add: Cons_nth_drop_Suc)
    then have "take (Suc (i' - Suc i)) (drop i data) = data ! i # take (i' - Suc i) (drop (Suc i) data)"
      by simp
    with m diff have "messages chan' = messages chan @ take (i' - i) (drop i data)"
      by simp
    with le show ?thesis by simp
  qed
qed

lemma try_send_v_returned:
  assumes a: "coro_bus_try_send_v bus channel data count = Some (k, bus') \<and> 0 < k"
  shows "send_each bus channel (take (nat k) data) = (replicate (nat k) 0, bus')
      \<and> nat k \<le> length data
      \<and> (\<exists>chan. get_chanel_from bus channel = Some chan
            \<and> nat k = min (unat count) (size_limit chan - length (messages chan)))"
proof -
  from a obtain chan where chan: "get_chanel_from bus channel = Some chan"
    by (cases "get_chanel_from bus channel") (auto simp: coro_bus_try_send_v_def)
  with a obtain i chan' rt where
    loop: "send_v_loop chan (rt_calls bus) data (unat count) 0 = Some (i, chan', rt)"
    and k: "k = size_to_int i" and i0: "i \<noteq> 0"
    and b: "bus' = bus\<lparr>channels := (channels bus)[nat channel := Some chan'], rt_calls := rt\<rparr>"
    by (auto simp: coro_bus_try_send_v_def Let_def split: option.splits if_splits)
  note se = send_v_loop_send_each [OF loop chan refl]
  from se [THEN conjunct1] have i: "i = min (unat count) (size_limit chan - length (messages chan))"
    by simp
  from se [THEN conjunct2, THEN conjunct1] i0 have len: "i \<le> length data"
    by simp
  from se [THEN conjunct2, THEN conjunct2] b
  have each: "send_each bus channel (take i data) = (replicate i 0, bus')"
    by simp
  have "unat count < 2 ^ 32" using unsigned_less [of count] by simp
  with i have "i < 2 ^ 32" by simp
  from size_to_int_pos [OF this] a k have k': "nat k = i" by simp
  show ?thesis
    unfolding k' using i len each chan by blast
qed

lemma try_send_v_delivers:
  assumes chan: "get_chanel_from bus channel = Some chan"
    and c: "unat count \<le> length data"
    and n: "n = min (unat count) (size_limit chan - length (messages chan))"
  shows "\<exists>bus1 chan1.
           coro_bus_try_send_v bus channel data count =
             Some (if n = 0 then - 1 else size_to_int n, bus1)
         \<and> get_chanel_from bus1 channel = Some chan1
         \<and> messages chan1 = messages chan @ take n data
         \<and> (0 < n \<longrightarrow> send_each bus channel (take n data) = (replicate n 0, bus1))
         \<and> (0 < n \<and> n < 2 ^ 31 \<longrightarrow>
               coro_bus_try_send_v bus channel data count = Some (int n, bus1))
         \<and> (n = 0 \<longrightarrow> bus1 = bus\<lparr>global_error := CORO_BUS_ERR_WOULD_BLOCK\<rparr>)"
proof -
  from send_v_loop_total [OF c, of chan "rt_calls bus" 0] obtain i chan' rt where
    loop: "send_v_loop chan (rt_calls bus) data (unat count) 0 = Some (i, chan', rt)"
    by auto
  let ?bus' = "bus\<lparr>channels := (channels bus)[nat channel := Some chan'], rt_calls := rt\<rparr>"
  note se = send_v_loop_send_each [OF loop chan refl]
  from se [THEN conjunct1] n have i: "i = n" by simp
  from se [THEN conjunct2, THEN conjunct2]
  have each: "send_each bus channel (take i data) = (replicate i 0, ?bus')"
    by simp
  from send_v_loop_messages [OF loop] have msgs: "messages chan' = messages chan @ take i data"
    by simp
  have g: "get_chanel_from ?bus' channel = Some chan'"
    using chan by (rule get_chanel_from_update)
  show ?thesis
  proof (cases "n = 0")
    case True
    with i each have same: "?bus' = bus" by simp
    from chan loop i True
    have "coro_bus_try_send_v bus channel data count =
            Some (- 1, ?bus'\<lparr>global_error := CORO_BUS_ERR_WOULD_BLOCK\<rparr>)"
      by (simp add: coro_bus_try_send_v_def coro_bus_errno_set_def)
    then have r: "coro_bus_try_send_v bus channel data count =
            Some (- 1, bus\<lparr>global_error := CORO_BUS_ERR_WOULD_BLOCK\<rparr>)"
      by (simp only: same)
    from g have "get_chanel_from (?bus'\<lparr>global_error := CORO_BUS_ERR_WOULD_BLOCK\<rparr>) channel = Some chan'"
      by (auto simp: get_chanel_from_def split: if_splits)
    then have g': "get_chanel_from (bus\<lparr>global_error := CORO_BUS_ERR_WOULD_BLOCK\<rparr>) channel = Some chan'"
      by (simp only: same)
    from r g' msgs i True show ?thesis by simp
  next
    case False
    with chan loop i
    have r: "coro_bus_try_send_v bus channel data count = Some (size_to_int n, ?bus')"
      by (simp add: coro_bus_try_send_v_def)
    have "n < 2 ^ 31 \<longrightarrow> size_to_int n = int n"
      by (simp add: size_to_int_small)
    with r g msgs each i False show ?thesis by auto
  qed
qed

subsection \<open>Wake-ups on enqueue and dequeue\<close>

text \<open>
  Claim C3. A dequeue (\<open>read_and_wakeup_from\<close>) removes the head message and wakes at most
  one waiter: the head of the channel's \<open>send_queue\<close>, and only when that queue was empty
  the head of the bus's \<open>broadcast_queue\<close>. An enqueue (\<open>send_and_wakeup_to\<close>) appends
  the message and wakes at most the head of the channel's \<open>recv_queue\<close>; it does not touch
  the broadcast queue, which \<open>coro_bus_try_send\<close> leaves as it was.
\<close>

theorem wake_one_protocol:
  "(messages chan \<noteq> [] \<longrightarrow>
      (\<exists>chan' bq' rt'.
         read_and_wakeup_from bq chan rt = Some (hd (messages chan), chan', bq', rt')
         \<and> messages chan' = tl (messages chan)
         \<and> size_limit chan' = size_limit chan
         \<and> recv_queue chan' = recv_queue chan
         \<and> (case send_queue chan of
              w # sq \<Rightarrow> rt' = rt @ [Coro_wakeup w] \<and> send_queue chan' = sq \<and> bq' = bq
            | [] \<Rightarrow> send_queue chan' = [] \<and>
                (case bq of
                   b # bqs \<Rightarrow> rt' = rt @ [Coro_wakeup b] \<and> bq' = bqs
                 | [] \<Rightarrow> rt' = rt \<and> bq' = []))))
   \<and> (\<exists>chan' rt'.
         send_and_wakeup_to chan data rt = (chan', rt')
         \<and> messages chan' = messages chan @ [data]
         \<and> size_limit chan' = size_limit chan
         \<and> send_queue chan' = send_queue chan
         \<and> (case recv_queue chan of
              w # rq \<Rightarrow> rt' = rt @ [Coro_wakeup w] \<and> recv_queue chan' = rq
            | [] \<Rightarrow> rt' = rt \<and> recv_queue chan' = []))
   \<and> broadcast_queue (snd (coro_bus_try_send bus channel data)) = broadcast_queue bus"
  by (auto simp: read_and_wakeup_from_def send_and_wakeup_to_def
      wakeup_first_and_remove_from_def coro_bus_try_send_def coro_bus_errno_set_def
      split: list.splits option.splits)

theorem wake_one_protocol_witness:
  "messages chan_waiters \<noteq> []
   \<and> (\<exists>chan'. read_and_wakeup_from [3] chan_waiters [] = Some (7, chan', [], [Coro_wakeup 3])
         \<and> messages chan' = [] \<and> send_queue chan' = [] \<and> recv_queue chan' = [4, 5])
   \<and> (\<exists>chan'. send_and_wakeup_to chan_waiters 9 [] = (chan', [Coro_wakeup 4])
         \<and> messages chan' = [7, 9] \<and> send_queue chan' = [] \<and> recv_queue chan' = [5])"
  using wake_one_protocol [where chan = chan_waiters and bq = "[3]" and rt = "[]" and data = 9]
  by (auto simp: chan_waiters_def)

subsection \<open>Non-blocking send\<close>

text \<open>
  Claim C4. \<open>coro_bus_try_send\<close> returns \<open>-1\<close> and sets \<open>CORO_BUS_ERR_NO_CHANNEL\<close> when
  the descriptor is negative, out of range or names an empty slot; it returns \<open>-1\<close> and sets
  \<open>CORO_BUS_ERR_WOULD_BLOCK\<close> when the channel exists and its message queue is as long as
  its capacity; otherwise (the queue being shorter than the capacity) it appends the
  message to the tail of the queue and returns \<open>0\<close>, leaving the error code alone.
\<close>

theorem try_send_spec:
  "((channel < 0 \<or> length (channels bus) \<le> nat channel \<or> channels bus ! nat channel = None)
      \<longrightarrow> coro_bus_try_send bus channel data = (- 1, bus\<lparr>global_error := CORO_BUS_ERR_NO_CHANNEL\<rparr>))
   \<and> (0 \<le> channel \<and> nat channel < length (channels bus) \<and> channels bus ! nat channel = Some chan
        \<and> length (messages chan) = size_limit chan
      \<longrightarrow> coro_bus_try_send bus channel data = (- 1, bus\<lparr>global_error := CORO_BUS_ERR_WOULD_BLOCK\<rparr>))
   \<and> (0 \<le> channel \<and> nat channel < length (channels bus) \<and> channels bus ! nat channel = Some chan
        \<and> length (messages chan) \<le> size_limit chan \<and> length (messages chan) \<noteq> size_limit chan
      \<longrightarrow> (\<exists>chan' bus'. coro_bus_try_send bus channel data = (0, bus')
            \<and> channels bus' = (channels bus)[nat channel := Some chan']
            \<and> messages chan' = messages chan @ [data]
            \<and> size_limit chan' = size_limit chan
            \<and> send_queue chan' = send_queue chan
            \<and> broadcast_queue bus' = broadcast_queue bus
            \<and> global_error bus' = global_error bus))"
  by (auto simp: coro_bus_try_send_def get_chanel_from_def coro_bus_errno_set_def
      have_free_space_def send_and_wakeup_to_def wakeup_first_and_remove_from_def
      split: list.splits)

theorem try_send_spec_witness:
  "coro_bus_try_send coro_bus_new 0 5 = (- 1, coro_bus_new\<lparr>global_error := CORO_BUS_ERR_NO_CHANNEL\<rparr>)
   \<and> coro_bus_try_send bus_cap1_empty (- 1) 5 = (- 1, bus_cap1_empty\<lparr>global_error := CORO_BUS_ERR_NO_CHANNEL\<rparr>)
   \<and> coro_bus_try_send bus_cap1_full 0 5 = (- 1, bus_cap1_full\<lparr>global_error := CORO_BUS_ERR_WOULD_BLOCK\<rparr>)
   \<and> (\<exists>chan' bus'. coro_bus_try_send bus_cap1_empty 0 5 = (0, bus')
         \<and> channels bus' = [Some chan'] \<and> messages chan' = [5])"
  using try_send_spec [where channel = 0 and bus = coro_bus_new and data = 5]
    try_send_spec [where channel = "- 1" and bus = bus_cap1_empty and data = 5]
    try_send_spec [where channel = 0 and bus = bus_cap1_full and data = 5
      and chan = "(new_chan 1)\<lparr>messages := [7]\<rparr>"]
    try_send_spec [where channel = 0 and bus = bus_cap1_empty and data = 5
      and chan = "new_chan 1"]
  by (auto simp: coro_bus_new_def bus_cap1_empty_def bus_cap1_full_def new_chan_def)

subsection \<open>Vectorised operations with nothing to transfer\<close>

text \<open>
  Claim C7, as amended. \<open>coro_bus_try_send_v\<close> called with \<open>count = 0\<close> on an existing
  channel returns \<open>-1\<close> and sets \<open>CORO_BUS_ERR_WOULD_BLOCK\<close>, changing nothing else.
\<close>

theorem try_send_v_zero_count:
  "get_chanel_from bus channel = Some chan \<Longrightarrow>
   coro_bus_try_send_v bus channel data 0 =
     Some (- 1, bus\<lparr>global_error := CORO_BUS_ERR_WOULD_BLOCK\<rparr>)"
proof -
  assume chan: "get_chanel_from bus channel = Some chan"
  then have "(channels bus)[nat channel := Some chan] = channels bus"
    by (simp add: get_chanel_from_Some_iff list_update_same_conv [THEN iffD2])
  with chan show ?thesis
    by (simp add: coro_bus_try_send_v_def coro_bus_errno_set_def send_v_loop.simps)
qed

theorem try_send_v_zero_count_witness:
  "get_chanel_from bus_cap1_empty 0 = Some (new_chan 1)
   \<and> coro_bus_try_send_v bus_cap1_empty 0 [1, 2, 3] 0 =
        Some (- 1, bus_cap1_empty\<lparr>global_error := CORO_BUS_ERR_WOULD_BLOCK\<rparr>)"
proof -
  have h: "get_chanel_from bus_cap1_empty 0 = Some (new_chan 1)"
    by (simp add: get_chanel_from_def bus_cap1_empty_def)
  from h try_send_v_zero_count [OF h] show ?thesis by simp
qed

text \<open>
  The claim as stated (return value \<open>0\<close>, no \<open>CORO_BUS_ERR_WOULD_BLOCK\<close>) fails on an
  empty channel of capacity 1 with an empty array.
\<close>

theorem try_send_v_zero_count_counterexample:
  "get_chanel_from bus_cap1_empty 0 = Some (new_chan 1)
   \<and> coro_bus_try_send_v bus_cap1_empty 0 [] 0 =
        Some (- 1, bus_cap1_empty\<lparr>global_error := CORO_BUS_ERR_WOULD_BLOCK\<rparr>)
   \<and> coro_bus_try_send_v bus_cap1_empty 0 [] 0 \<noteq> Some (0, bus_cap1_empty)"
  by (simp add: coro_bus_try_send_v_def get_chanel_from_def bus_cap1_empty_def
      coro_bus_errno_set_def send_v_loop.simps)

text \<open>
  Claim C10. \<open>coro_bus_try_recv_v\<close> called with \<open>capacity = 0\<close> on an existing channel
  returns \<open>-1\<close> and sets \<open>CORO_BUS_ERR_WOULD_BLOCK\<close>, whatever the message queue holds, and
  changes nothing else.
\<close>

theorem try_recv_v_zero_capacity:
  "get_chanel_from bus channel = Some chan \<Longrightarrow>
   coro_bus_try_recv_v bus channel 0 =
     Some (- 1, [], bus\<lparr>global_error := CORO_BUS_ERR_WOULD_BLOCK\<rparr>)"
proof -
  assume chan: "get_chanel_from bus channel = Some chan"
  then have "(channels bus)[nat channel := Some chan] = channels bus"
    by (simp add: get_chanel_from_Some_iff list_update_same_conv [THEN iffD2])
  with chan show ?thesis
    by (simp add: coro_bus_try_recv_v_def coro_bus_errno_set_def recv_v_loop.simps)
qed

theorem try_recv_v_zero_capacity_witness:
  "get_chanel_from bus_cap1_full 0 = Some ((new_chan 1)\<lparr>messages := [7]\<rparr>)
   \<and> coro_bus_try_recv_v bus_cap1_full 0 0 =
        Some (- 1, [], bus_cap1_full\<lparr>global_error := CORO_BUS_ERR_WOULD_BLOCK\<rparr>)"
proof -
  have h: "get_chanel_from bus_cap1_full 0 = Some ((new_chan 1)\<lparr>messages := [7]\<rparr>)"
    by (simp add: get_chanel_from_def bus_cap1_full_def)
  from h try_recv_v_zero_capacity [OF h] show ?thesis by simp
qed

subsection \<open>Closing a channel\<close>

text \<open>
  Claim C8. \<open>coro_bus_channel_close\<close> on a descriptor that is negative, out of range or
  names an empty slot changes nothing; closing twice is the same as closing once; it never
  touches the error code; and closing an existing channel wakes every waiter of its
  \<open>send_queue\<close> and then of its \<open>recv_queue\<close>, leaving both queues empty, empties the slot
  and yields once.
\<close>

theorem channel_close_idempotent:
  "((channel < 0 \<or> length (channels bus) \<le> nat channel \<or> channels bus ! nat channel = None)
      \<longrightarrow> coro_bus_channel_close bus channel = bus)
   \<and> coro_bus_channel_close (coro_bus_channel_close bus channel) channel
       = coro_bus_channel_close bus channel
   \<and> global_error (coro_bus_channel_close bus channel) = global_error bus
   \<and> (get_chanel_from bus channel = Some chan \<longrightarrow>
        channels (coro_bus_channel_close bus channel) = (channels bus)[nat channel := None]
        \<and> get_chanel_from (coro_bus_channel_close bus channel) channel = None
        \<and> send_queue (fst (close_wakeup chan (rt_calls bus))) = []
        \<and> recv_queue (fst (close_wakeup chan (rt_calls bus))) = []
        \<and> rt_calls (coro_bus_channel_close bus channel)
            = rt_calls bus @ map Coro_wakeup (send_queue chan)
                @ map Coro_wakeup (recv_queue chan) @ [Coro_yield])"
  by (auto simp: coro_bus_channel_close_def close_wakeup_eq get_chanel_from_def
      split: option.splits)

theorem channel_close_idempotent_witness:
  "coro_bus_channel_close bus_waiters 1 = bus_waiters
   \<and> coro_bus_channel_close bus_waiters (- 1) = bus_waiters
   \<and> coro_bus_channel_close (coro_bus_channel_close bus_waiters 0) 0
        = coro_bus_channel_close bus_waiters 0
   \<and> get_chanel_from bus_waiters 0 = Some chan_waiters
   \<and> channels (coro_bus_channel_close bus_waiters 0) = [None]
   \<and> rt_calls (coro_bus_channel_close bus_waiters 0)
        = [Coro_wakeup 4, Coro_wakeup 5, Coro_yield]"
proof -
  have h: "get_chanel_from bus_waiters 0 = Some chan_waiters"
    by (simp add: get_chanel_from_def bus_waiters_def)
  from h channel_close_idempotent [where bus = bus_waiters and channel = 0 and chan = chan_waiters]
    channel_close_idempotent [where bus = bus_waiters and channel = 1]
    channel_close_idempotent [where bus = bus_waiters and channel = "- 1"]
  show ?thesis
    by (simp add: bus_waiters_def chan_waiters_def)
qed

subsection \<open>Opening a channel\<close>

text \<open>
  Claim C1, as amended. On a table of fewer than \<open>2 ^ 31\<close> slots with an empty slot,
  \<open>coro_bus_channel_open\<close> places the new channel in the empty slot with the highest index
  and returns that index, changing no other slot; in particular, after closing an open
  descriptor \<open>d\<close> the next open returns an empty index greater than or equal to \<open>d\<close>.
\<close>

theorem channel_open_highest_empty:
  "(length (channels bus) < 2 ^ 31 \<and> j < length (channels bus) \<and> channels bus ! j = None
      \<and> (\<forall>k. j < k \<and> k < length (channels bus) \<longrightarrow> channels bus ! k \<noteq> None)
    \<longrightarrow> coro_bus_channel_open bus lim =
          Some (int j, bus\<lparr>channels := (channels bus)[j := Some (new_chan lim)]\<rparr>))
   \<and> (length (channels bus) < 2 ^ 31 \<and> get_chanel_from bus d = Some chan
    \<longrightarrow> (\<exists>j bus'. coro_bus_channel_open (coro_bus_channel_close bus d) lim = Some (int j, bus')
           \<and> d \<le> int j \<and> j < length (channels bus)
           \<and> channels (coro_bus_channel_close bus d) ! j = None
           \<and> channels bus' = (channels (coro_bus_channel_close bus d))[j := Some (new_chan lim)]))"
proof (intro conjI impI)
  assume "length (channels bus) < 2 ^ 31 \<and> j < length (channels bus) \<and> channels bus ! j = None
      \<and> (\<forall>k. j < k \<and> k < length (channels bus) \<longrightarrow> channels bus ! k \<noteq> None)"
  then show "coro_bus_channel_open bus lim =
          Some (int j, bus\<lparr>channels := (channels bus)[j := Some (new_chan lim)]\<rparr>)"
    by (intro channel_open_reuse) simp_all
next
  let ?b = "coro_bus_channel_close bus d"
  assume a: "length (channels bus) < 2 ^ 31 \<and> get_chanel_from bus d = Some chan"
  then have d: "0 \<le> d" "nat d < length (channels bus)"
    by (simp_all add: get_chanel_from_Some_iff)
  from a have chs: "channels ?b = (channels bus)[nat d := None]"
    by (simp add: coro_bus_channel_close_def close_wakeup_eq)
  with d have dn: "channels ?b ! nat d = None" and len: "length (channels ?b) = length (channels bus)"
    by simp_all
  with d have "None \<in> set (channels ?b)"
    by (metis nth_mem)
  from last_empty_exists [OF this] obtain j where j: "j < length (channels ?b)"
    "channels ?b ! j = None" "\<forall>k. j < k \<and> k < length (channels ?b) \<longrightarrow> channels ?b ! k \<noteq> None"
    by blast
  have "nat d \<le> j"
  proof (rule ccontr)
    assume "\<not> nat d \<le> j"
    with j(3) [rule_format, of "nat d"] d len dn show False by simp
  qed
  with d have "d \<le> int j" by simp
  moreover from a len have "length (channels ?b) < 2 ^ 31" by simp
  from channel_open_reuse [OF this j]
  have "coro_bus_channel_open ?b lim = Some (int j, ?b\<lparr>channels := (channels ?b)[j := Some (new_chan lim)]\<rparr>)" .
  ultimately show "\<exists>j bus'. coro_bus_channel_open ?b lim = Some (int j, bus')
           \<and> d \<le> int j \<and> j < length (channels bus)
           \<and> channels ?b ! j = None
           \<and> channels bus' = (channels ?b)[j := Some (new_chan lim)]"
    using j len by auto
qed

theorem channel_open_highest_empty_witness:
  "coro_bus_channel_open (coro_bus_channel_close bus_holes 1) 9 =
     Some (2, (coro_bus_channel_close bus_holes 1)
                \<lparr>channels := [Some (new_chan 1), None, Some (new_chan 9)]\<rparr>)
   \<and> (\<exists>j bus'. coro_bus_channel_open (coro_bus_channel_close bus_holes 0) 9 = Some (int j, bus')
         \<and> 0 \<le> int j \<and> j < 3)"
proof -
  let ?b = "coro_bus_channel_close bus_holes 1"
  have c: "channels ?b = [Some (new_chan 1), None, None]"
    by (simp add: coro_bus_channel_close_def close_wakeup_eq bus_holes_def get_chanel_from_def)
  have "\<forall>k. 2 < k \<and> k < length (channels ?b) \<longrightarrow> channels ?b ! k \<noteq> None"
    by (simp add: c)
  with c have h1: "length (channels ?b) < 2 ^ 31 \<and> 2 < length (channels ?b) \<and> channels ?b ! 2 = None
      \<and> (\<forall>k. 2 < k \<and> k < length (channels ?b) \<longrightarrow> channels ?b ! k \<noteq> None)"
    by simp
  have h2: "length (channels bus_holes) < 2 ^ 31 \<and> get_chanel_from bus_holes 0 = Some (new_chan 1)"
    by (simp add: bus_holes_def get_chanel_from_def)
  note w1 = channel_open_highest_empty [where bus = ?b and j = 2 and lim = 9, THEN conjunct1, rule_format, OF h1]
    and w2 = channel_open_highest_empty [where bus = bus_holes and d = 0 and chan = "new_chan 1" and lim = 9,
      THEN conjunct2, rule_format, OF h2]
  have l: "length (channels bus_holes) = 3"
    by (simp add: bus_holes_def)
  from w1 w2 show ?thesis
    by (auto simp: c l)
qed

text \<open>
  The claim as stated (the lowest empty index) fails: with slots 1 and 2 empty, slot 1
  having just been closed, the new channel goes to slot 2 and 2 is returned.
\<close>

theorem channel_open_lowest_empty_counterexample:
  "channels (coro_bus_channel_close bus_holes 1) = [Some (new_chan 1), None, None]
   \<and> map_option fst (coro_bus_channel_open (coro_bus_channel_close bus_holes 1) 9) = Some 2
   \<and> map_option (channels \<circ> snd) (coro_bus_channel_open (coro_bus_channel_close bus_holes 1) 9)
       = Some [Some (new_chan 1), None, Some (new_chan 9)]"
  by (simp add: coro_bus_channel_open_def coro_bus_channel_close_def close_wakeup_eq
      bus_holes_def get_chanel_from_def size_to_int_small)

subsection \<open>Broadcast\<close>

text \<open>
  Claim C2. \<open>coro_bus_try_broadcast\<close> returns \<open>0\<close> or \<open>-1\<close>. When it returns \<open>0\<close>, at
  least one slot was occupied, every open channel had free space, and the message queue of
  every channel open at the call is the old queue with the message appended, empty slots
  staying empty. When it returns \<open>-1\<close>, nothing but the error code has changed, and
  either the code is \<open>CORO_BUS_ERR_WOULD_BLOCK\<close> and some open channel was full, or it is
  \<open>CORO_BUS_ERR_NO_CHANNEL\<close> and no slot was occupied.
\<close>

theorem try_broadcast_all_or_nothing:
  "coro_bus_try_broadcast bus m = (r, bus') \<Longrightarrow>
     (r = 0 \<or> r = - 1)
   \<and> (r = 0 \<longrightarrow>
        (\<exists>c. Some c \<in> set (channels bus))
      \<and> (\<forall>c. Some c \<in> set (channels bus) \<longrightarrow> length (messages c) < size_limit c)
      \<and> length (channels bus') = length (channels bus)
      \<and> (\<forall>i < length (channels bus).
            (channels bus ! i = None \<longrightarrow> channels bus' ! i = None)
          \<and> (\<forall>c. channels bus ! i = Some c \<longrightarrow>
                (\<exists>c'. channels bus' ! i = Some c' \<and> messages c' = messages c @ [m]
                   \<and> size_limit c' = size_limit c))))
   \<and> (r = - 1 \<longrightarrow>
        bus' = bus\<lparr>global_error := global_error bus'\<rparr>
      \<and> channels bus' = channels bus
      \<and> (global_error bus' = CORO_BUS_ERR_WOULD_BLOCK
            \<and> (\<exists>c. Some c \<in> set (channels bus) \<and> size_limit c \<le> length (messages c))
         \<or> global_error bus' = CORO_BUS_ERR_NO_CHANNEL
            \<and> (\<forall>slot \<in> set (channels bus). slot = None)))"
proof (cases "broadcast_scan (channels bus) []")
  case None
  assume "coro_bus_try_broadcast bus m = (r, bus')"
  with None have r: "r = - 1" "bus' = bus\<lparr>global_error := CORO_BUS_ERR_WOULD_BLOCK\<rparr>"
    by (simp_all add: coro_bus_try_broadcast_def coro_bus_errno_set_def)
  from None obtain c where "Some c \<in> set (channels bus)" "size_limit c \<le> length (messages c)"
    by (auto simp: broadcast_scan_None_iff have_free_space_def)
  with r show ?thesis by auto
next
  case (Some alive)
  assume eq: "coro_bus_try_broadcast bus m = (r, bus')"
  show ?thesis
  proof (cases "alive = []")
    case True
    with Some eq have r: "r = - 1" "bus' = bus\<lparr>global_error := CORO_BUS_ERR_NO_CHANNEL\<rparr>"
      by (simp_all add: coro_bus_try_broadcast_def coro_bus_errno_set_def)
    from broadcast_scan_empty_iff [OF Some] True
    have "\<forall>slot \<in> set (channels bus). slot = None" by simp
    with r show ?thesis by auto
  next
    case False
    with Some eq have r: "r = 0"
      and b: "channels bus' = fst (broadcast_push (channels bus) m (rt_calls bus))"
      by (auto simp: coro_bus_try_broadcast_def split_beta)
    from broadcast_scan_empty_iff [OF Some] False
    have ex: "\<exists>c. Some c \<in> set (channels bus)"
      by (metis not_None_eq)
    have "broadcast_scan (channels bus) [] \<noteq> None" using Some by simp
    then have free: "\<forall>c. Some c \<in> set (channels bus) \<longrightarrow> length (messages c) < size_limit c"
      by (auto simp: broadcast_scan_None_iff have_free_space_def)
    from r b ex free show ?thesis
      by (simp add: broadcast_push_length broadcast_push_nth)
  qed
qed

theorem try_broadcast_all_or_nothing_witness:
  "coro_bus_try_broadcast bus_two 9 =
     (0, bus_two\<lparr>channels := [Some ((new_chan 1)\<lparr>messages := [9]\<rparr>), None,
                               Some ((new_chan 2)\<lparr>messages := [7, 9]\<rparr>)]\<rparr>)
   \<and> coro_bus_try_broadcast (snd (coro_bus_try_broadcast bus_two 9)) 9 =
       (- 1, snd (coro_bus_try_broadcast bus_two 9)\<lparr>global_error := CORO_BUS_ERR_WOULD_BLOCK\<rparr>)
   \<and> coro_bus_try_broadcast coro_bus_new 9 =
       (- 1, coro_bus_new\<lparr>global_error := CORO_BUS_ERR_NO_CHANNEL\<rparr>)"
proof -
  have e1: "coro_bus_try_broadcast bus_two 9 =
     (0, bus_two\<lparr>channels := [Some ((new_chan 1)\<lparr>messages := [9]\<rparr>), None,
                               Some ((new_chan 2)\<lparr>messages := [7, 9]\<rparr>)]\<rparr>)"
    by (simp add: coro_bus_try_broadcast_def bus_two_def new_chan_def have_free_space_def
        send_and_wakeup_to_def wakeup_first_and_remove_from_def)
  have e2: "coro_bus_try_broadcast (snd (coro_bus_try_broadcast bus_two 9)) 9 =
       (- 1, snd (coro_bus_try_broadcast bus_two 9)\<lparr>global_error := CORO_BUS_ERR_WOULD_BLOCK\<rparr>)"
    by (simp add: e1) (simp add: coro_bus_try_broadcast_def bus_two_def new_chan_def
        have_free_space_def coro_bus_errno_set_def)
  have e3: "coro_bus_try_broadcast coro_bus_new 9 =
       (- 1, coro_bus_new\<lparr>global_error := CORO_BUS_ERR_NO_CHANNEL\<rparr>)"
    by (simp add: coro_bus_try_broadcast_def coro_bus_new_def coro_bus_errno_set_def)
  from try_broadcast_all_or_nothing [OF e1] try_broadcast_all_or_nothing [OF e2]
    try_broadcast_all_or_nothing [OF e3] e1 e2 e3
  show ?thesis by simp
qed

subsection \<open>Vectorised send\<close>

text \<open>
  Claim C6. \<open>coro_bus_try_send_v\<close> returns whenever the array holds \<open>count\<close> elements.
  When it returns \<open>k > 0\<close>, then \<open>k\<close> successive \<open>coro_bus_try_send\<close> calls with the first
  \<open>k\<close> elements of the array, in order, from the same initial state all return \<open>0\<close> and
  end in the same state (channel table, queues, error code and runtime calls); and \<open>k\<close> is
  the minimum of \<open>count\<close> and the free space of the channel. Conversely, on an existing
  channel and an array of \<open>count\<close> elements, with \<open>n\<close> the minimum of \<open>count\<close> and the
  free space: the call delivers exactly the first \<open>n\<close> elements of the array, appended in
  order to the message queue; when \<open>n > 0\<close> it ends in the state of \<open>n\<close> successful
  \<open>coro_bus_try_send\<close> calls and returns \<open>n\<close> (narrowed to \<open>int\<close>, which is \<open>n\<close> itself
  below \<open>2 ^ 31\<close>); when \<open>n = 0\<close> it returns \<open>-1\<close> and only sets
  \<open>CORO_BUS_ERR_WOULD_BLOCK\<close>.
\<close>

theorem try_send_v_refines_try_send:
  "(unat count \<le> length data \<longrightarrow> coro_bus_try_send_v bus channel data count \<noteq> None)
   \<and> (coro_bus_try_send_v bus channel data count = Some (k, bus') \<and> 0 < k \<longrightarrow>
        send_each bus channel (take (nat k) data) = (replicate (nat k) 0, bus')
      \<and> nat k \<le> length data
      \<and> (\<exists>chan. get_chanel_from bus channel = Some chan
            \<and> nat k = min (unat count) (size_limit chan - length (messages chan))))
   \<and> (get_chanel_from bus channel = Some chan \<and> unat count \<le> length data
        \<and> n = min (unat count) (size_limit chan - length (messages chan)) \<longrightarrow>
        (\<exists>bus1 chan1.
           coro_bus_try_send_v bus channel data count =
             Some (if n = 0 then - 1 else size_to_int n, bus1)
         \<and> get_chanel_from bus1 channel = Some chan1
         \<and> messages chan1 = messages chan @ take n data
         \<and> (0 < n \<longrightarrow> send_each bus channel (take n data) = (replicate n 0, bus1))
         \<and> (0 < n \<and> n < 2 ^ 31 \<longrightarrow>
               coro_bus_try_send_v bus channel data count = Some (int n, bus1))
         \<and> (n = 0 \<longrightarrow> bus1 = bus\<lparr>global_error := CORO_BUS_ERR_WOULD_BLOCK\<rparr>)))"
proof (rule conjI; (rule conjI)?; rule impI)
  assume "unat count \<le> length data"
  from try_send_v_total [OF this, of bus channel]
  show "coro_bus_try_send_v bus channel data count \<noteq> None" by auto
next
  assume "coro_bus_try_send_v bus channel data count = Some (k, bus') \<and> 0 < k"
  then show "send_each bus channel (take (nat k) data) = (replicate (nat k) 0, bus')
      \<and> nat k \<le> length data
      \<and> (\<exists>chan. get_chanel_from bus channel = Some chan
            \<and> nat k = min (unat count) (size_limit chan - length (messages chan)))"
    by (rule try_send_v_returned)
next
  assume a: "get_chanel_from bus channel = Some chan \<and> unat count \<le> length data
        \<and> n = min (unat count) (size_limit chan - length (messages chan))"
  then have "get_chanel_from bus channel = Some chan" "unat count \<le> length data"
    "n = min (unat count) (size_limit chan - length (messages chan))"
    by simp_all
  then show "\<exists>bus1 chan1.
           coro_bus_try_send_v bus channel data count =
             Some (if n = 0 then - 1 else size_to_int n, bus1)
         \<and> get_chanel_from bus1 channel = Some chan1
         \<and> messages chan1 = messages chan @ take n data
         \<and> (0 < n \<longrightarrow> send_each bus channel (take n data) = (replicate n 0, bus1))
         \<and> (0 < n \<and> n < 2 ^ 31 \<longrightarrow>
               coro_bus_try_send_v bus channel data count = Some (int n, bus1))
         \<and> (n = 0 \<longrightarrow> bus1 = bus\<lparr>global_error := CORO_BUS_ERR_WOULD_BLOCK\<rparr>)"
    by (rule try_send_v_delivers)
qed

theorem try_send_v_refines_try_send_witness:
  "unat (3 :: 32 word) \<le> length [1, 2, 3 :: u32]
   \<and> get_chanel_from bus_cap3 0 = Some ((new_chan 3)\<lparr>recv_queue := [4], messages := [7]\<rparr>)
   \<and> coro_bus_try_send_v bus_cap3 0 [1, 2, 3] 3 = Some (2, bus_cap3_sent)
   \<and> send_each bus_cap3 0 [1, 2] = ([0, 0], bus_cap3_sent)
   \<and> (\<exists>chan1. get_chanel_from bus_cap3_sent 0 = Some chan1 \<and> messages chan1 = [7, 1, 2])"
proof -
  let ?c = "(new_chan 3)\<lparr>recv_queue := [4], messages := [7]\<rparr>"
  have g: "get_chanel_from bus_cap3 0 = Some ?c"
    by (simp add: get_chanel_from_def bus_cap3_def)
  have c: "unat (3 :: 32 word) \<le> length [1, 2, 3 :: u32]" by simp
  have n: "Suc (Suc 0) = min (unat (3 :: 32 word)) (size_limit ?c - length (messages ?c))"
    by (simp add: new_chan_def)
  have e: "coro_bus_try_send_v bus_cap3 0 [1, 2, 3] 3 = Some (2, bus_cap3_sent)"
    by code_simp
  then have h: "coro_bus_try_send_v bus_cap3 0 [1, 2, 3] 3 = Some (2, bus_cap3_sent) \<and> (0::int) < 2"
    by simp
  note inst = try_send_v_refines_try_send [where bus = bus_cap3 and channel = 0
      and data = "[1, 2, 3]" and count = 3 and k = 2 and bus' = bus_cap3_sent
      and chan = ?c and n = "Suc (Suc 0)"]
  from inst [THEN conjunct2, THEN conjunct1, rule_format, OF h]
  have "send_each bus_cap3 0 (take (nat 2) [1, 2, 3]) = (replicate (nat 2) 0, bus_cap3_sent)"
    by (rule conjunct1)
  then have s: "send_each bus_cap3 0 [1, 2] = ([0, 0], bus_cap3_sent)"
    by (simp add: numeral_2_eq_2)
  from inst [THEN conjunct2, THEN conjunct2, rule_format, OF conjI [OF g conjI [OF c n]]]
  obtain bus1 chan1 where
    d1: "coro_bus_try_send_v bus_cap3 0 [1, 2, 3] 3 =
           Some (if Suc (Suc 0) = 0 then - 1 else size_to_int (Suc (Suc 0)), bus1)"
    and d2: "get_chanel_from bus1 0 = Some chan1"
    and d3: "messages chan1 = messages ?c @ take (Suc (Suc 0)) [1, 2, 3]"
    by blast
  from d1 e have "bus1 = bus_cap3_sent" by simp
  with d2 d3 have "\<exists>chan1. get_chanel_from bus_cap3_sent 0 = Some chan1 \<and> messages chan1 = [7, 1, 2]"
    by (auto simp: new_chan_def)
  with g c e s show ?thesis by simp
qed

subsection \<open>First in, first out\<close>

text \<open>
  Claim C9. On an empty channel of capacity 1, sending \<open>v\<^sub>1\<close>, ..., \<open>v\<^sub>n\<close> in order,
  each send followed by its receive, every send returns \<open>0\<close> and every receive returns
  \<open>0\<close> and delivers the value just sent: the values received are exactly
  \<open>v\<^sub>1\<close>, ..., \<open>v\<^sub>n\<close> in the same order, and the channel is empty again at the end.
\<close>

theorem capacity_one_roundtrip:
  "get_chanel_from bus channel = Some chan \<Longrightarrow> size_limit chan = 1 \<Longrightarrow> messages chan = [] \<Longrightarrow>
   \<exists>bus' chan'. ping_pong bus channel vs = Some (map (\<lambda>v. (0, 0, Some v)) vs, bus')
      \<and> get_chanel_from bus' channel = Some chan'
      \<and> size_limit chan' = 1 \<and> messages chan' = []"
proof (induction vs arbitrary: bus chan)
  case Nil
  then show ?case by simp
next
  case (Cons v vs)
  let ?p = "send_and_wakeup_to chan v (rt_calls bus)"
  let ?bus1 = "bus\<lparr>channels := (channels bus)[nat channel := Some (fst ?p)], rt_calls := snd ?p\<rparr>"
  from Cons.prems have "have_free_space chan" by (simp add: have_free_space_def)
  from try_send_ok [OF Cons.prems(1) this]
  have send: "coro_bus_try_send bus channel v = (0, ?bus1)" .
  have g1: "get_chanel_from ?bus1 channel = Some (fst ?p)"
    using Cons.prems(1) by (rule get_chanel_from_update)
  have m1: "messages (fst ?p) = v # []" using Cons.prems(3) by simp
  from try_recv_ok [OF g1 m1] obtain chan2 bq rt where
    recv: "coro_bus_try_recv ?bus1 channel =
             Some (0, Some v, ?bus1\<lparr>channels := (channels ?bus1)[nat channel := Some chan2],
                                     broadcast_queue := bq, rt_calls := rt\<rparr>)"
    and c2: "messages chan2 = []" "size_limit chan2 = size_limit (fst ?p)"
    by blast
  let ?bus2 = "?bus1\<lparr>channels := (channels ?bus1)[nat channel := Some chan2],
                       broadcast_queue := bq, rt_calls := rt\<rparr>"
  have g2: "get_chanel_from ?bus2 channel = Some chan2"
    using g1 by (rule get_chanel_from_update_bq)
  from c2 Cons.prems(2) have s2: "size_limit chan2 = 1" by simp
  from Cons.IH [OF g2 s2 c2(1)] obtain bus' chan' where
    "ping_pong ?bus2 channel vs = Some (map (\<lambda>v. (0, 0, Some v)) vs, bus')"
    "get_chanel_from bus' channel = Some chan'" "size_limit chan' = 1" "messages chan' = []"
    by blast
  with send recv show ?case by simp
qed

theorem capacity_one_roundtrip_witness:
  "get_chanel_from bus_cap1_empty 0 = Some (new_chan 1)
   \<and> size_limit (new_chan 1) = 1 \<and> messages (new_chan 1) = []
   \<and> (\<exists>bus'. ping_pong bus_cap1_empty 0 [7, 8] = Some ([(0, 0, Some 7), (0, 0, Some 8)], bus'))"
proof -
  have g: "get_chanel_from bus_cap1_empty 0 = Some (new_chan 1)"
    by (simp add: get_chanel_from_def bus_cap1_empty_def)
  have s: "size_limit (new_chan 1) = 1" and m: "messages (new_chan 1) = []"
    by (simp_all add: new_chan_def)
  from capacity_one_roundtrip [OF g s m, of "[7, 8]"] g s m show ?thesis
    by auto
qed

subsection \<open>The capacity bound\<close>

text \<open>
  Claim C5. The bus after \<open>coro_bus_new\<close> satisfies the capacity bound. A sequence of open,
  close, try_send, try_recv, try_broadcast, try_send_v and try_recv_v calls that stay within
  their arguments, on a table that stays below \<open>2 ^ 31\<close> slots, always runs to the end.
  And whatever sequence of these calls is run from a state that satisfies the bound, every
  channel open afterwards has \<open>0 \<le> length messages \<le> size_limit\<close>.
\<close>

theorem capacity_invariant:
  "bus_inv coro_bus_new
   \<and> (length (channels bus) + length ops < 2 ^ 31 \<and> list_all op_ok ops \<longrightarrow>
        run ops bus \<noteq> None)
   \<and> (bus_inv bus \<and> run ops bus = Some bus' \<longrightarrow>
        bus_inv bus'
        \<and> (\<forall>channel chan. get_chanel_from bus' channel = Some chan \<longrightarrow>
              0 \<le> length (messages chan) \<and> length (messages chan) \<le> size_limit chan))"
proof (intro conjI impI)
  show "bus_inv coro_bus_new" by (simp add: bus_inv_def coro_bus_new_def)
next
  assume "length (channels bus) + length ops < 2 ^ 31 \<and> list_all op_ok ops"
  then show "run ops bus \<noteq> None" using run_total [of bus ops] by auto
next
  assume a: "bus_inv bus \<and> run ops bus = Some bus'"
  then show inv: "bus_inv bus'" by (auto intro: run_inv)
  show "\<forall>channel chan. get_chanel_from bus' channel = Some chan \<longrightarrow>
              0 \<le> length (messages chan) \<and> length (messages chan) \<le> size_limit chan"
  proof (intro allI impI)
    fix channel chan assume "get_chanel_from bus' channel = Some chan"
    then have "Some chan \<in> set (channels bus')" by (rule get_chanel_from_mem)
    with inv show "0 \<le> length (messages chan) \<and> length (messages chan) \<le> size_limit chan"
      by (simp add: bus_inv_iff chan_ok_def)
  qed
qed

theorem capacity_invariant_witness:
  "bus_inv coro_bus_new
   \<and> length (channels coro_bus_new) + length demo_ops < 2 ^ 31 \<and> list_all op_ok demo_ops
   \<and> run demo_ops coro_bus_new = Some demo_final \<and> bus_inv demo_final
   \<and> get_chanel_from demo_final 0 = Some ((new_chan 2)\<lparr>messages := [1, 9]\<rparr>)"
proof -
  have r: "run demo_ops coro_bus_new = Some demo_final"
    by code_simp
  have g: "get_chanel_from demo_final 0 = Some ((new_chan 2)\<lparr>messages := [1, 9]\<rparr>)"
    by (simp add: get_chanel_from_def demo_final_def)
  have o: "length (channels coro_bus_new) + length demo_ops < 2 ^ 31 \<and> list_all op_ok demo_ops"
    by (simp add: coro_bus_new_def demo_ops_def)
  from capacity_invariant [where bus = coro_bus_new and ops = demo_ops and bus' = demo_final] r g o
  show ?thesis by simp
qed

end
